theory Spec2Isabelle
  imports Main "HOL-Library.Word" "HOL-Library.Multiset"
begin

section \<open>Shortest-path search of \<^verbatim>\<open>main.c\<close>\<close>

text \<open>
  The development embeds \<^verbatim>\<open>main.c\<close>: the loaders \<^verbatim>\<open>loadNodes\<close> and \<^verbatim>\<open>loadEdges\<close>,
  the search \<^verbatim>\<open>dijkstra\<close>, the renderer \<^verbatim>\<open>printShortestPath\<close> and the driver \<^verbatim>\<open>app\<close>.
  The graph and heap modules (\<^verbatim>\<open>graph.h\<close>, \<^verbatim>\<open>heap.h\<close>, \<^verbatim>\<open>graph-private.h\<close> and their
  implementations) are not part of the sources; they are modelled from the specification
  and marked as such.

  A \<^verbatim>\<open>Node*\<close> is an index into the arena of nodes owned by the graph, \<^verbatim>\<open>NULL\<close> is \<open>None\<close>.
  \<^verbatim>\<open>unsigned int\<close> is a 32-bit word; the \<^verbatim>\<open>int\<close> weight of an edge is kept as its 32-bit
  two's complement pattern and read with \<open>sint\<close>.
\<close>

subsection \<open>Data model\<close>

type_synonym u32 = "32 word"

record edge =
  destination :: nat
  mindelay :: "32 word"

record node =
  node_id :: u32
  distance :: u32
  previous :: "nat option"
  heap_index :: "nat option"
  edges :: "edge list"

type_synonym Graph = "node list"
type_synonym Heap = "nat list"

definition UINT_MAX :: u32 where
  "UINT_MAX = 4294967295"

datatype errorType =
    NO_MEMORY
  | INVALID_NODE_FILE
  | INVALID_EDGES_FILE
  | INVALID_SOURCE_NODE_ID
  | INVALID_DEST_NODE_ID
  | INVALID_NUMBER_OF_PARAMETERS
  | NO_PATH
  | CANNOT_CREATE_NEW_FILE

text \<open>
  The result of a call that can fail: \<open>Undefined\<close> stands for a run that leaves the
  contract of a callee (the C standard or the heap's specification says nothing about what
  happens next), \<open>Err e\<close> for a failure reported through \<^verbatim>\<open>errorHandle(e)\<close>.
\<close>

datatype 'a res = Undefined | Err errorType | Ok 'a

subsection \<open>Graph module\<close>

text \<open>
  Modelled from the spec: \<^verbatim>\<open>graph.c\<close> and its headers are missing. A node is created with
  its distance at the infinity sentinel and no predecessor; lookup is by id; inserting a
  present id changes nothing; inserting an edge creates both endpoints when needed and
  appends to the adjacency list of the source. Allocation does not fail in the model, the
  callers keep their branch for it.
\<close>

definition new_node :: "u32 \<Rightarrow> node" where
  "new_node i = \<lparr>node_id = i, distance = UINT_MAX, previous = None, heap_index = None, edges = []\<rparr>"

definition graph_new :: "Graph option" where
  "graph_new = Some []"

definition graph_get_node :: "Graph \<Rightarrow> u32 \<Rightarrow> nat option" where
  "graph_get_node g i = find (\<lambda>k. node_id (g ! k) = i) [0..<length g]"

definition graph_insert_node :: "Graph \<Rightarrow> u32 \<Rightarrow> Graph option" where
  "graph_insert_node g i =
     (case graph_get_node g i of Some k \<Rightarrow> Some g | None \<Rightarrow> Some (g @ [new_node i]))"

definition graph_insert_edge :: "Graph \<Rightarrow> u32 \<Rightarrow> u32 \<Rightarrow> 32 word \<Rightarrow> Graph option" where
  "graph_insert_edge g s d w =
     (case graph_insert_node g s of
        None \<Rightarrow> None
      | Some g1 \<Rightarrow>
         (case graph_insert_node g1 d of
            None \<Rightarrow> None
          | Some g2 \<Rightarrow>
             (case graph_get_node g2 s of
                None \<Rightarrow> None
              | Some a \<Rightarrow>
                 (case graph_get_node g2 d of
                    None \<Rightarrow> None
                  | Some b \<Rightarrow>
                     Some (g2[a := (g2 ! a)\<lparr>edges := edges (g2 ! a) @
                                     [\<lparr>destination = b, mindelay = w\<rparr>]\<rparr>])))))"

definition node_get_id :: "Graph \<Rightarrow> nat \<Rightarrow> u32" where
  "node_get_id g n = node_id (g ! n)"

definition node_get_distance :: "Graph \<Rightarrow> nat \<Rightarrow> u32" where
  "node_get_distance g n = distance (g ! n)"

definition node_get_previous :: "Graph \<Rightarrow> nat \<Rightarrow> nat option" where
  "node_get_previous g n = previous (g ! n)"

definition node_get_edges :: "Graph \<Rightarrow> nat \<Rightarrow> edge list" where
  "node_get_edges g n = edges (g ! n)"

subsection \<open>Heap module\<close>

text \<open>
  Modelled from the spec: \<^verbatim>\<open>heap.c\<close> is missing. The heap is the backing array of node
  references of a binary min-heap keyed by \<open>distance\<close>; every node records its slot in
  \<open>heap_index\<close>, \<open>None\<close> being the "not present" sentinel. Building takes the nodes in
  arena order and does not reorder them (all keys are equal then).
  \<open>heap_decrease_distance\<close> sets distance and predecessor and sifts the node up from its
  slot; on a node that is not in the heap the specification leaves the behaviour open, which
  is \<open>Undefined\<close> here. \<open>heap_extract_min\<close> moves the last slot to the root and sifts it
  down.
\<close>

definition heap_new_from_graph :: "Graph \<Rightarrow> (Graph \<times> Heap) option" where
  "heap_new_from_graph g =
     Some (map (\<lambda>k. (g ! k)\<lparr>heap_index := Some k\<rparr>) [0..<length g], [0..<length g])"

definition heap_is_empty :: "Heap \<Rightarrow> bool" where
  "heap_is_empty h = (h = [])"

definition swap_slots :: "Graph \<Rightarrow> Heap \<Rightarrow> nat \<Rightarrow> nat \<Rightarrow> Graph \<times> Heap" where
  "swap_slots g h i j =
     (let a = h ! i; b = h ! j;
          g1 = g[a := (g ! a)\<lparr>heap_index := Some j\<rparr>];
          g2 = g1[b := (g1 ! b)\<lparr>heap_index := Some i\<rparr>]
      in (g2, h[i := b, j := a]))"

definition key :: "Graph \<Rightarrow> Heap \<Rightarrow> nat \<Rightarrow> u32" where
  "key g h i = distance (g ! (h ! i))"

function sift_up :: "Graph \<Rightarrow> Heap \<Rightarrow> nat \<Rightarrow> Graph \<times> Heap" where
  "sift_up g h i =
     (if i = 0 then (g, h)
      else if key g h i < key g h ((i - 1) div 2)
           then sift_up (fst (swap_slots g h i ((i - 1) div 2)))
                        (snd (swap_slots g h i ((i - 1) div 2))) ((i - 1) div 2)
           else (g, h))"
  by pat_completeness auto
termination
  by (relation "measure (\<lambda>(g, h, i). i)") auto

declare sift_up.simps [simp del]

definition smallest :: "Graph \<Rightarrow> Heap \<Rightarrow> nat \<Rightarrow> nat" where
  "smallest g h i =
     (let l = 2 * i + 1; r = 2 * i + 2;
          s = (if l < length h \<and> key g h l < key g h i then l else i)
      in if r < length h \<and> key g h r < key g h s then r else s)"

function sift_down :: "Graph \<Rightarrow> Heap \<Rightarrow> nat \<Rightarrow> Graph \<times> Heap" where
  "sift_down g h i =
     (if smallest g h i \<noteq> i
      then sift_down (fst (swap_slots g h i (smallest g h i)))
                     (snd (swap_slots g h i (smallest g h i))) (smallest g h i)
      else (g, h))"
  by pat_completeness auto
termination
proof (relation "measure (\<lambda>(g, h, i). length h - i)")
  show "wf (measure (\<lambda>(g, h, i). length h - i))" by simp
next
  fix g :: Graph and h :: Heap and i :: nat
  assume "smallest g h i \<noteq> i"
  then have "i < smallest g h i \<and> smallest g h i < length h"
    by (auto simp: smallest_def Let_def split: if_splits)
  moreover have "length (snd (swap_slots g h i (smallest g h i))) = length h"
    by (simp add: swap_slots_def Let_def)
  ultimately show "((fst (swap_slots g h i (smallest g h i)),
               snd (swap_slots g h i (smallest g h i)), smallest g h i), g, h, i)
             \<in> measure (\<lambda>(g, h, i). length h - i)"
    by auto
qed

declare sift_down.simps [simp del]

definition heap_decrease_distance ::
  "Heap \<Rightarrow> Graph \<Rightarrow> nat \<Rightarrow> u32 \<Rightarrow> nat option \<Rightarrow> (Graph \<times> Heap) res" where
  "heap_decrease_distance h g n val prev =
     (case heap_index (g ! n) of
        None \<Rightarrow> Undefined
      | Some i \<Rightarrow> Ok (sift_up (g[n := (g ! n)\<lparr>distance := val, previous := prev\<rparr>]) h i))"

definition heap_extract_min :: "Graph \<Rightarrow> Heap \<Rightarrow> (nat \<times> Graph \<times> Heap) option" where
  "heap_extract_min g h =
     (if h = [] then None
      else let m = h ! 0; l = last h;
               g1 = g[l := (g ! l)\<lparr>heap_index := Some 0\<rparr>];
               g2 = g1[m := (g1 ! m)\<lparr>heap_index := None\<rparr>];
               h1 = butlast (h[0 := l])
           in Some (m, sift_down g2 h1 0))"

subsection \<open>The search: \<^verbatim>\<open>dijkstra\<close>\<close>

text \<open>One pass of the body of the \<^verbatim>\<open>for\<close> loop, for the edge \<open>e\<close> of the extracted \<open>node\<close>.\<close>

definition relax :: "Graph \<Rightarrow> Heap \<Rightarrow> nat \<Rightarrow> u32 \<Rightarrow> edge \<Rightarrow> (Graph \<times> Heap) res" where
  "relax g h node d e =
     (let tmp = destination e; alt = d + mindelay e
      in if alt < node_get_distance g tmp
         then heap_decrease_distance h g tmp alt (Some node)
         else Ok (g, h))"

fun relax_edges :: "Graph \<Rightarrow> Heap \<Rightarrow> nat \<Rightarrow> u32 \<Rightarrow> edge list \<Rightarrow> (Graph \<times> Heap) res" where
  "relax_edges g h node d [] = Ok (g, h)"
| "relax_edges g h node d (e # es) =
     (case relax g h node d e of
        Ok (g', h') \<Rightarrow> relax_edges g' h' node d es
      | Err x \<Rightarrow> Err x
      | Undefined \<Rightarrow> Undefined)"

text \<open>
  The \<^verbatim>\<open>while\<close> loop. It is a partial function: that it returns is a theorem, not part of
  the definition.
\<close>

partial_function (option) dijkstra_loop :: "Graph \<Rightarrow> Heap \<Rightarrow> nat \<Rightarrow> (Graph \<times> Heap) res option" where
  "dijkstra_loop g h dest =
     (if heap_is_empty h then Some (Ok (g, h))
      else case heap_extract_min g h of
             None \<Rightarrow> Some Undefined
           | Some (node, g1, h1) \<Rightarrow>
               (let alt = node_get_distance g1 node;
                    tmp_edges = node_get_edges g1 node;
                    d = alt
                in if alt = UINT_MAX then Some (Ok (g1, h1))
                   else case relax_edges g1 h1 node d tmp_edges of
                          Ok (g2, h2) \<Rightarrow>
                            if node = dest then Some (Ok (g2, h2))
                            else dijkstra_loop g2 h2 dest
                        | Err x \<Rightarrow> Some (Err x)
                        | Undefined \<Rightarrow> Some Undefined))"

definition dijkstra :: "Graph \<Rightarrow> u32 \<Rightarrow> nat \<Rightarrow> (Graph \<times> Heap) res option" where
  "dijkstra g source_id dest =
     (case heap_new_from_graph g of
        None \<Rightarrow> Some (Err NO_MEMORY)
      | Some (g0, h) \<Rightarrow>
         (case graph_get_node g0 source_id of
            None \<Rightarrow> Some (Err INVALID_SOURCE_NODE_ID)
          | Some source_node \<Rightarrow>
             (case heap_decrease_distance h g0 source_node 0 None of
                Ok (g1, h1) \<Rightarrow> dijkstra_loop g1 h1 dest
              | Err x \<Rightarrow> Some (Err x)
              | Undefined \<Rightarrow> Some Undefined)))"

declare dijkstra_loop.simps [code]

subsection \<open>The renderer: \<^verbatim>\<open>printShortestPath\<close>\<close>

definition nl :: char where
  "nl = CHR 0x0A"

definition tab :: char where
  "tab = CHR 0x09"

text \<open>The conversion \<^verbatim>\<open>%u\<close> of \<^verbatim>\<open>fprintf\<close>: decimal digits, no leading zero.\<close>

fun dec :: "nat \<Rightarrow> string" where
  "dec n = (if n < 10 then [''0123456789'' ! n]
            else dec (n div 10) @ [''0123456789'' ! (n mod 10)])"

declare dec.simps [simp del]

text \<open>The line \<^verbatim>\<open>"\t%u -> %u [label=%u];\n"\<close> for the link from \<open>tmp_prev\<close> to \<open>tmp_node\<close>.\<close>

definition edge_line :: "Graph \<Rightarrow> nat \<Rightarrow> nat \<Rightarrow> string" where
  "edge_line g tmp_prev tmp_node =
     [tab] @ dec (unat (node_get_id g tmp_prev)) @ '' -> '' @ dec (unat (node_get_id g tmp_node))
       @ '' [label='' @ dec (unat (node_get_distance g tmp_node - node_get_distance g tmp_prev))
       @ ''];'' @ [nl]"

text \<open>
  The \<^verbatim>\<open>while (tmp_prev)\<close> loop; \<open>out\<close> is what has been written to the stream so far.
  On a cyclic chain of \<open>previous\<close> links the loop does not return: the value is \<open>None\<close>.
\<close>

partial_function (option) print_loop :: "Graph \<Rightarrow> nat \<Rightarrow> nat option \<Rightarrow> string \<Rightarrow> string option" where
  "print_loop g tmp_node tmp_prev out =
     (case tmp_prev of
        None \<Rightarrow> Some out
      | Some p \<Rightarrow> print_loop g p (node_get_previous g p) (out @ edge_line g p tmp_node))"

declare print_loop.simps [code]

definition printShortestPath :: "u32 \<Rightarrow> Graph \<Rightarrow> nat \<Rightarrow> string option" where
  "printShortestPath source_id g dest =
     (case (if source_id \<noteq> node_get_id g dest
            then print_loop g dest (node_get_previous g dest) (''digraph {'' @ [nl])
            else Some (''digraph {'' @ [nl])) of
        None \<Rightarrow> None
      | Some out \<Rightarrow> Some (out @ ''}'' @ [nl]))"

subsection \<open>The C library used by the loaders\<close>

text \<open>
  \<^verbatim>\<open>atoi\<close>, \<^verbatim>\<open>strtok\<close>, \<^verbatim>\<open>fgets\<close> and \<^verbatim>\<open>feof\<close> follow the C standard. \<^verbatim>\<open>atoi\<close> skips white
  space, takes an optional sign and the longest run of decimal digits, and yields 0 when there
  is no digit; on a null pointer, or when the value does not fit an \<^verbatim>\<open>int\<close>, the behaviour is
  undefined. The value is returned as its 32-bit pattern, which is also what the assignment to
  an \<^verbatim>\<open>unsigned int\<close> stores.
\<close>

definition isspace :: "char \<Rightarrow> bool" where
  "isspace c = (c = CHR '' '' \<or> (9 \<le> (of_char c :: nat) \<and> (of_char c :: nat) \<le> 13))"

definition isdigit :: "char \<Rightarrow> bool" where
  "isdigit c = (48 \<le> (of_char c :: nat) \<and> (of_char c :: nat) \<le> 57)"

definition digits_value :: "string \<Rightarrow> int" where
  "digits_value s = foldl (\<lambda>v c. 10 * v + (int (of_char c) - 48)) 0 (takeWhile isdigit s)"

definition atoi_value :: "string \<Rightarrow> int" where
  "atoi_value s =
     (case dropWhile isspace s of
        [] \<Rightarrow> 0
      | c # cs \<Rightarrow>
          if c = CHR ''-'' then - digits_value cs
          else if c = CHR ''+'' then digits_value cs
          else digits_value (c # cs))"

definition atoi :: "string option \<Rightarrow> 32 word res" where
  "atoi p =
     (case p of
        None \<Rightarrow> Undefined
      | Some s \<Rightarrow>
          if - (2 ^ 31) \<le> atoi_value s \<and> atoi_value s < 2 ^ 31
          then Ok (word_of_int (atoi_value s))
          else Undefined)"

text \<open>
  \<^verbatim>\<open>strtok(s, ",")\<close> on the text \<open>s\<close>: the next token, if any, and the text after it from which
  \<^verbatim>\<open>strtok(NULL, ",")\<close> continues.
\<close>

definition strtok :: "string \<Rightarrow> string option \<times> string" where
  "strtok s =
     (let t = dropWhile (\<lambda>c. c = CHR '','') s
      in if t = [] then (None, [])
         else (Some (takeWhile (\<lambda>c. c \<noteq> CHR '','') t),
               drop 1 (dropWhile (\<lambda>c. c \<noteq> CHR '','') t)))"

record FILE =
  content :: string
  eof :: bool

definition feof :: "FILE \<Rightarrow> bool" where
  "feof f = eof f"

text \<open>
  \<open>read_line k s\<close> reads at most \<open>k\<close> characters of \<open>s\<close>, stopping after a newline; the flag
  says that the end of the file was hit while reading.
\<close>

fun read_line :: "nat \<Rightarrow> string \<Rightarrow> string \<times> string \<times> bool" where
  "read_line 0 s = ([], s, False)"
| "read_line (Suc k) [] = ([], [], True)"
| "read_line (Suc k) (c # cs) =
     (if c = nl then ([c], cs, False)
      else (case read_line k cs of (l, r, e) \<Rightarrow> (c # l, r, e)))"

text \<open>The buffer is read as a C string: it ends at the first NUL character.\<close>

definition fgets :: "nat \<Rightarrow> FILE \<Rightarrow> string \<times> FILE" where
  "fgets n f =
     (case read_line (n - 1) (content f) of
        (l, r, e) \<Rightarrow> (takeWhile (\<lambda>c. c \<noteq> CHR 0x00) l, \<lparr>content = r, eof = (eof f \<or> e)\<rparr>))"

subsection \<open>The loaders: \<^verbatim>\<open>loadNodes\<close> and \<^verbatim>\<open>loadEdges\<close>\<close>

text \<open>
  Both return the \<^verbatim>\<open>bool\<close> of the source together with the graph they have built.
\<close>

function loadNodes :: "Graph \<Rightarrow> FILE \<Rightarrow> (bool \<times> Graph) res" where
  "loadNodes g f =
     (if feof f then Ok (True, g)
      else if feof (snd (fgets 200 f)) then Ok (True, g)
      else (case atoi (fst (strtok (fst (fgets 200 f)))) of
              Undefined \<Rightarrow> Undefined
            | Err x \<Rightarrow> Err x
            | Ok i \<Rightarrow>
                (case graph_insert_node g i of
                   None \<Rightarrow> Ok (False, g)
                 | Some g' \<Rightarrow> loadNodes g' (snd (fgets 200 f)))))"
  by pat_completeness auto
termination
proof (relation "measure (\<lambda>(g, f). length (content f))")
  show "wf (measure (\<lambda>(g, f). length (content f)))" by simp
next
  fix g :: Graph and f :: FILE and i :: "32 word" and g' :: Graph
  assume ne: "\<not> feof (snd (fgets 200 f))"
  have rl: "length (fst (snd (read_line k s))) \<le> length s \<and>
            (0 < k \<longrightarrow> \<not> snd (snd (read_line k s)) \<longrightarrow> length (fst (snd (read_line k s))) < length s)"
    for k s
    by (induction k s rule: read_line.induct) (auto split: prod.splits)
  obtain l r e where *: "read_line 199 (content f) = (l, r, e)"
    by (cases "read_line 199 (content f)") auto
  from ne * have "\<not> e"
    by (simp add: fgets_def feof_def)
  with rl [of 199 "content f"] * have "length (content (snd (fgets 200 f))) < length (content f)"
    by (simp add: fgets_def)
  then show "((g', snd (fgets 200 f)), g, f) \<in> measure (\<lambda>(g, f). length (content f))"
    by simp
qed

declare loadNodes.simps [simp del]

function loadEdges :: "Graph \<Rightarrow> FILE \<Rightarrow> (bool \<times> Graph) res" where
  "loadEdges g f =
     (if feof f then Ok (True, g)
      else if feof (snd (fgets 200 f)) then Ok (True, g)
      else let t1 = strtok (fst (fgets 200 f));
               t2 = strtok (snd t1);
               t3 = strtok (snd t2);
               t4 = strtok (snd t3)
           in (case atoi (fst t1) of
                 Undefined \<Rightarrow> Undefined
               | Err x \<Rightarrow> Err x
               | Ok source \<Rightarrow>
                  (case atoi (fst t2) of
                     Undefined \<Rightarrow> Undefined
                   | Err x \<Rightarrow> Err x
                   | Ok dest \<Rightarrow>
                      (case atoi (fst t4) of
                         Undefined \<Rightarrow> Undefined
                       | Err x \<Rightarrow> Err x
                       | Ok delay \<Rightarrow>
                          (case graph_insert_edge g source dest delay of
                             None \<Rightarrow> Ok (False, g)
                           | Some g' \<Rightarrow> loadEdges g' (snd (fgets 200 f)))))))"
  by pat_completeness auto
termination
proof (relation "measure (\<lambda>(g, f). length (content f))")
  show "wf (measure (\<lambda>(g, f). length (content f)))" by simp
next
  fix g :: Graph and f :: FILE and g' :: Graph
  assume ne: "\<not> feof (snd (fgets 200 f))"
  have rl: "length (fst (snd (read_line k s))) \<le> length s \<and>
            (0 < k \<longrightarrow> \<not> snd (snd (read_line k s)) \<longrightarrow> length (fst (snd (read_line k s))) < length s)"
    for k s
    by (induction k s rule: read_line.induct) (auto split: prod.splits)
  obtain l r e where *: "read_line 199 (content f) = (l, r, e)"
    by (cases "read_line 199 (content f)") auto
  from ne * have "\<not> e"
    by (simp add: fgets_def feof_def)
  with rl [of 199 "content f"] * have "length (content (snd (fgets 200 f))) < length (content f)"
    by (simp add: fgets_def)
  then show "((g', snd (fgets 200 f)), g, f) \<in> measure (\<lambda>(g, f). length (content f))"
    by simp
qed

declare loadEdges.simps [simp del]

subsection \<open>The driver: \<^verbatim>\<open>app\<close>\<close>

text \<open>
  The environment of a run: the files that \<^verbatim>\<open>fopen(_, "r")\<close> can open, with their text, and
  the paths that \<^verbatim>\<open>fopen(_, "w")\<close> can create. A run that returns yields the exit code, what
  was written to the standard streams and the output file it has created, if any.
\<close>

record env =
  files :: "string \<Rightarrow> string option"
  creatable :: "string \<Rightarrow> bool"

record outcome =
  exit_code :: int
  stderr :: string
  stdout :: string
  created_file :: "(string \<times> string) option"

datatype run = Crash | Exit outcome

definition errorHandle :: "errorType \<Rightarrow> string" where
  "errorHandle e =
     (case e of
        NO_MEMORY \<Rightarrow> ''Cannot allocate new memory.''
      | INVALID_NODE_FILE \<Rightarrow> ''Cannot open nodes file. No such file or directory.''
      | INVALID_EDGES_FILE \<Rightarrow> ''Cannot open edges file. No such file or directory.''
      | INVALID_SOURCE_NODE_ID \<Rightarrow> ''Invalid source node id.''
      | INVALID_DEST_NODE_ID \<Rightarrow> ''Invalid destination node id.''
      | INVALID_NUMBER_OF_PARAMETERS \<Rightarrow> ''Invalid number of parameters.''
      | NO_PATH \<Rightarrow> ''No path exists between these two nodes.''
      | CANNOT_CREATE_NEW_FILE \<Rightarrow> ''Cannot create new file to print data in.'') @ [nl]"

text \<open>\<^verbatim>\<open>errorHandle(e); ...; return 1;\<close>\<close>

definition fail :: "errorType \<Rightarrow> run" where
  "fail e = Exit \<lparr>exit_code = 1, stderr = errorHandle e, stdout = [], created_file = None\<rparr>"

text \<open>The part of \<^verbatim>\<open>app\<close> after the graph has been loaded (lines 236 to 279).\<close>

definition search_and_print :: "env \<Rightarrow> Graph \<Rightarrow> string \<Rightarrow> string \<Rightarrow> string option \<Rightarrow> run option" where
  "search_and_print e g sourceNode destNode outputFile =
     (case atoi (Some destNode) of
        Undefined \<Rightarrow> Some Crash
      | Err x \<Rightarrow> Some (fail x)
      | Ok dest_id \<Rightarrow>
         (case graph_get_node g dest_id of
            None \<Rightarrow> Some (fail INVALID_DEST_NODE_ID)
          | Some dest_node \<Rightarrow>
             (case atoi (Some sourceNode) of
                Undefined \<Rightarrow> Some Crash
              | Err x \<Rightarrow> Some (fail x)
              | Ok source_id \<Rightarrow>
                 (case dijkstra g source_id dest_node of
                    None \<Rightarrow> None
                  | Some Undefined \<Rightarrow> Some Crash
                  | Some (Err x) \<Rightarrow> Some (fail x)
                  | Some (Ok (g', h)) \<Rightarrow>
                     if node_get_distance g' dest_node = UINT_MAX then Some (fail NO_PATH)
                     else (case outputFile of
                             None \<Rightarrow>
                               (case printShortestPath source_id g' dest_node of
                                  None \<Rightarrow> None
                                | Some text \<Rightarrow>
                                    Some (Exit \<lparr>exit_code = 0, stderr = [], stdout = text,
                                                created_file = None\<rparr>))
                           | Some path \<Rightarrow>
                               if \<not> creatable e path then Some (fail CANNOT_CREATE_NEW_FILE)
                               else (case printShortestPath source_id g' dest_node of
                                       None \<Rightarrow> None
                                     | Some text \<Rightarrow>
                                         Some (Exit \<lparr>exit_code = 0, stderr = [], stdout = [],
                                                     created_file = Some (path, text)\<rparr>)))))))"

definition app :: "env \<Rightarrow> string \<Rightarrow> string \<Rightarrow> string \<Rightarrow> string \<Rightarrow> string option \<Rightarrow> run option" where
  "app e nodesFile edgesFile sourceNode destNode outputFile =
     (case files e nodesFile of
        None \<Rightarrow> Some (fail INVALID_NODE_FILE)
      | Some nodes \<Rightarrow>
         (case files e edgesFile of
            None \<Rightarrow> Some (fail INVALID_EDGES_FILE)
          | Some edges_text \<Rightarrow>
             (case graph_new of
                None \<Rightarrow> Some (fail NO_MEMORY)
              | Some g \<Rightarrow>
                 (case loadNodes g \<lparr>content = nodes, eof = False\<rparr> of
                    Undefined \<Rightarrow> Some Crash
                  | Err x \<Rightarrow> Some (fail x)
                  | Ok (ok1, g1) \<Rightarrow>
                     if \<not> ok1 then Some (fail NO_MEMORY)
                     else (case loadEdges g1 \<lparr>content = edges_text, eof = False\<rparr> of
                             Undefined \<Rightarrow> Some Crash
                           | Err x \<Rightarrow> Some (fail x)
                           | Ok (ok2, g2) \<Rightarrow>
                              if \<not> ok2 then Some (fail NO_MEMORY)
                              else search_and_print e g2 sourceNode destNode outputFile)))))"

definition main :: "env \<Rightarrow> string list \<Rightarrow> run option" where
  "main e argv =
     (if \<not> (length argv = 5 \<or> length argv = 6) then Some (fail INVALID_NUMBER_OF_PARAMETERS)
      else if length argv = 5 then app e (argv ! 1) (argv ! 2) (argv ! 3) (argv ! 4) None
      else app e (argv ! 1) (argv ! 2) (argv ! 3) (argv ! 4) (Some (argv ! 5)))"

subsection \<open>The scenario of the specification\<close>

definition scenario_nodes :: string where
  "scenario_nodes = ''1'' @ [nl] @ ''2'' @ [nl] @ ''3'' @ [nl]"

definition scenario_edges :: string where
  "scenario_edges = ''1,2,0,5'' @ [nl] @ ''2,3,0,2'' @ [nl] @ ''1,3,0,10'' @ [nl]"

definition scenario_env :: env where
  "scenario_env =
     \<lparr>files = (\<lambda>p. if p = ''nodes.csv'' then Some scenario_nodes
                     else if p = ''edges.csv'' then Some scenario_edges else None),
      creatable = (\<lambda>p. True)\<rparr>"

definition scenario_graph :: Graph where
  "scenario_graph =
     [\<lparr>node_id = 1, distance = UINT_MAX, previous = None, heap_index = None,
       edges = [\<lparr>destination = 1, mindelay = 5\<rparr>, \<lparr>destination = 2, mindelay = 10\<rparr>]\<rparr>,
      \<lparr>node_id = 2, distance = UINT_MAX, previous = None, heap_index = None,
       edges = [\<lparr>destination = 2, mindelay = 2\<rparr>]\<rparr>,
      \<lparr>node_id = 3, distance = UINT_MAX, previous = None, heap_index = None, edges = []\<rparr>]"

section \<open>Notions used in the statements\<close>

text \<open>What a graph holds apart from the heap bookkeeping.\<close>

definition core_of :: "Graph \<Rightarrow> node list" where
  "core_of g = map (\<lambda>n. n\<lparr>heap_index := None\<rparr>) g"

text \<open>The graph after \<open>heap_extract_min\<close> has unlinked the root, before it sifts down.\<close>

definition detach :: "Graph \<Rightarrow> Heap \<Rightarrow> Graph" where
  "detach g h =
     (g[last h := (g ! last h)\<lparr>heap_index := Some 0\<rparr>])
       [h ! 0 := ((g[last h := (g ! last h)\<lparr>heap_index := Some 0\<rparr>]) ! (h ! 0))\<lparr>heap_index := None\<rparr>]"

text \<open>The scenario's graph once the heap has been built over it.\<close>

definition scenario_built :: Graph where
  "scenario_built = map (\<lambda>k. (scenario_graph ! k)\<lparr>heap_index := Some k\<rparr>) [0..<length scenario_graph]"

text \<open>
  A chain of \<open>previous\<close> links: every node of the list points to the next one, the last one
  to nothing.
\<close>

fun is_chain :: "Graph \<Rightarrow> nat list \<Rightarrow> bool" where
  "is_chain g [] = False"
| "is_chain g [v] = (previous (g ! v) = None)"
| "is_chain g (v # u # ns) = (previous (g ! v) = Some u \<and> is_chain g (u # ns))"

text \<open>The scenario's graph as the search leaves it.\<close>

definition scenario_done :: Graph where
  "scenario_done =
     [\<lparr>node_id = 1, distance = 0, previous = None, heap_index = None,
       edges = [\<lparr>destination = 1, mindelay = 5\<rparr>, \<lparr>destination = 2, mindelay = 10\<rparr>]\<rparr>,
      \<lparr>node_id = 2, distance = 5, previous = Some 0, heap_index = None,
       edges = [\<lparr>destination = 2, mindelay = 2\<rparr>]\<rparr>,
      \<lparr>node_id = 3, distance = 7, previous = Some 1, heap_index = None, edges = []\<rparr>]"

text \<open>
  After white space and an optional sign, the text does not go on with a decimal digit.
\<close>

definition no_leading_digit :: "string \<Rightarrow> bool" where
  "no_leading_digit s =
     (case dropWhile isspace s of
        [] \<Rightarrow> True
      | c # cs \<Rightarrow>
          if c = CHR ''-'' \<or> c = CHR ''+'' then (case cs of [] \<Rightarrow> True | x # xs \<Rightarrow> \<not> isdigit x)
          else \<not> isdigit c)"

text \<open>A decimal numeral with an optional sign, and nothing else.\<close>

definition is_number :: "string \<Rightarrow> bool" where
  "is_number s =
     (case s of
        [] \<Rightarrow> False
      | c # cs \<Rightarrow>
          if c = CHR ''-'' \<or> c = CHR ''+'' then cs \<noteq> [] \<and> list_all isdigit cs
          else list_all isdigit (c # cs))"




text \<open>An environment whose graph has the single node 7 and no edge.\<close>

definition seven_env :: env where
  "seven_env =
     \<lparr>files = (\<lambda>p. if p = ''nodes.csv'' then Some (''7'' @ [nl])
                     else if p = ''edges.csv'' then Some [] else None),
      creatable = (\<lambda>p. True)\<rparr>"

text \<open>
  The bookkeeping of the heap: the slots hold distinct nodes of the graph, every node in a
  slot records that slot, and every other node records that it is not in the heap.
\<close>

definition idx_inv :: "Graph \<Rightarrow> Heap \<Rightarrow> bool" where
  "idx_inv g h \<longleftrightarrow>
     distinct h \<and>
     (\<forall>i < length h. h ! i < length g \<and> heap_index (g ! (h ! i)) = Some i) \<and>
     (\<forall>r < length g. r \<notin> set h \<longrightarrow> heap_index (g ! r) = None)"

text \<open>
  An edge path of the graph: \<open>path G u es v\<close> holds when the edges \<open>es\<close> lead from node \<open>u\<close>
  to node \<open>v\<close>.
\<close>

fun path :: "Graph \<Rightarrow> nat \<Rightarrow> edge list \<Rightarrow> nat \<Rightarrow> bool" where
  "path G u [] v = (u = v)"
| "path G u (e # es) v = (u < length G \<and> e \<in> set (edges (G ! u)) \<and> path G (destination e) es v)"

text \<open>Every edge leads to a node of the graph.\<close>

definition wf_graph :: "Graph \<Rightarrow> bool" where
  "wf_graph G = (\<forall>n \<in> set G. \<forall>e \<in> set (edges n). destination e < length G)"

text \<open>No search has run yet: every distance is the sentinel, no node has a predecessor.\<close>

definition fresh :: "Graph \<Rightarrow> bool" where
  "fresh G = (\<forall>n \<in> set G. distance n = UINT_MAX \<and> previous n = None)"

text \<open>The nodes, their ids and their edges are those of \<open>G\<close>.\<close>

definition same_graph :: "Graph \<Rightarrow> Graph \<Rightarrow> bool" where
  "same_graph G g \<longleftrightarrow>
     length g = length G \<and>
     (\<forall>r < length G. edges (g ! r) = edges (G ! r) \<and> node_id (g ! r) = node_id (G ! r))"

text \<open>
  The invariant of the search from \<open>s\<close> that holds for all weights: the source keeps distance 0
  and no predecessor, and every node with a distance has a chain of predecessors that ends in
  the source and runs through extracted nodes, and is reached from the source by edges.
\<close>

definition tree_inv :: "Graph \<Rightarrow> nat \<Rightarrow> Graph \<Rightarrow> Heap \<Rightarrow> bool" where
  "tree_inv G s g h \<longleftrightarrow>
     wf_graph G \<and> same_graph G g \<and> idx_inv g h \<and> s < length G \<and>
     distance (g ! s) = 0 \<and> previous (g ! s) = None \<and>
     (\<forall>v < length G. distance (g ! v) \<noteq> UINT_MAX \<longrightarrow>
        (\<exists>ns. is_chain g (v # ns) \<and> last (v # ns) = s \<and> (\<forall>u \<in> set ns. u < length G \<and> u \<notin> set h)) \<and>
        (\<exists>es. path G s es v))"

text \<open>The same while the edges \<open>es\<close> of the extracted node \<open>m\<close> are still to be relaxed.\<close>

definition tree_step :: "Graph \<Rightarrow> nat \<Rightarrow> nat \<Rightarrow> Graph \<Rightarrow> edge list \<Rightarrow> Graph \<Rightarrow> Heap \<Rightarrow> bool" where
  "tree_step G s m g0 es g h \<longleftrightarrow>
     tree_inv G s g h \<and> m < length G \<and> m \<notin> set h \<and> distance (g ! m) \<noteq> UINT_MAX \<and>
     distance (g ! m) = node_get_distance g0 m \<and> set es \<subseteq> set (edges (G ! m))"






text \<open>The order of the heap: no slot has a smaller key than its parent slot.\<close>

definition heap_ord :: "Graph \<Rightarrow> Heap \<Rightarrow> bool" where
  "heap_ord g h \<longleftrightarrow> (\<forall>i < length h. 0 < i \<longrightarrow> key g h ((i - 1) div 2) \<le> key g h i)"

text \<open>
  The order while slot \<open>i\<close> is sifted up: it holds everywhere except between \<open>i\<close> and its
  parent, and the children of \<open>i\<close> are not below the parent of \<open>i\<close>.
\<close>

definition up_ok :: "Graph \<Rightarrow> Heap \<Rightarrow> nat \<Rightarrow> bool" where
  "up_ok g h i \<longleftrightarrow>
     (\<forall>j < length h. 0 < j \<longrightarrow> j \<noteq> i \<longrightarrow> key g h ((j - 1) div 2) \<le> key g h j) \<and>
     (\<forall>j < length h. 0 < j \<longrightarrow> (j - 1) div 2 = i \<longrightarrow> 0 < i \<longrightarrow> key g h ((i - 1) div 2) \<le> key g h j)"

text \<open>
  The order while slot \<open>i\<close> is sifted down: it holds everywhere except between \<open>i\<close> and its
  children, and the children of \<open>i\<close> are not below the parent of \<open>i\<close>.
\<close>

definition down_ok :: "Graph \<Rightarrow> Heap \<Rightarrow> nat \<Rightarrow> bool" where
  "down_ok g h i \<longleftrightarrow>
     (\<forall>j < length h. 0 < j \<longrightarrow> (j - 1) div 2 \<noteq> i \<longrightarrow> key g h ((j - 1) div 2) \<le> key g h j) \<and>
     (\<forall>j < length h. 0 < j \<longrightarrow> (j - 1) div 2 = i \<longrightarrow> 0 < i \<longrightarrow> key g h ((i - 1) div 2) \<le> key g h j)"

text \<open>The weight of an edge path: the sum of the weights of its edges, as the integers they are.\<close>

definition weight :: "edge list \<Rightarrow> int" where
  "weight es = sum_list (map (\<lambda>e. sint (mindelay e)) es)"

text \<open>
  No weight is negative or above \<open>W\<close>, and \<open>W\<close> times the number of nodes stays below the
  infinity sentinel: no sum of weights along a path without repeated nodes wraps around.
\<close>

definition bounded_weights :: "Graph \<Rightarrow> int \<Rightarrow> bool" where
  "bounded_weights G W \<longleftrightarrow>
     0 \<le> W \<and> int (length G) * W < 4294967295 \<and>
     (\<forall>n \<in> set G. \<forall>e \<in> set (edges n). 0 \<le> sint (mindelay e) \<and> sint (mindelay e) \<le> W)"

text \<open>
  The invariant of the search from \<open>s\<close> under bounded weights: the heap is ordered; the nodes
  that have left the heap have a distance, not above that of any node in the heap, and their
  edges are relaxed; every distance is the weight of a path from the source and is bounded by
  \<open>W\<close> times the number of extractions.
\<close>

definition dist_inv :: "Graph \<Rightarrow> nat \<Rightarrow> int \<Rightarrow> Graph \<Rightarrow> Heap \<Rightarrow> bool" where
  "dist_inv G s W g h \<longleftrightarrow>
     tree_inv G s g h \<and> bounded_weights G W \<and> heap_ord g h \<and> length h \<le> length G \<and>
     (\<forall>v < length G. v \<notin> set h \<longrightarrow> distance (g ! v) \<noteq> UINT_MAX) \<and>
     (\<forall>v < length G. distance (g ! v) \<noteq> UINT_MAX \<longrightarrow>
        uint (distance (g ! v)) \<le> W * int (length G - length h)) \<and>
     (\<forall>u < length G. u \<notin> set h \<longrightarrow> (\<forall>v \<in> set h. distance (g ! u) \<le> distance (g ! v))) \<and>
     (\<forall>u < length G. u \<notin> set h \<longrightarrow>
        (\<forall>e \<in> set (edges (G ! u)).
           uint (distance (g ! destination e)) \<le> uint (distance (g ! u)) + sint (mindelay e))) \<and>
     (\<forall>v < length G. distance (g ! v) \<noteq> UINT_MAX \<longrightarrow>
        (\<exists>es. path G s es v \<and> weight es = uint (distance (g ! v))))"

text \<open>The same while the edges \<open>es\<close> of the extracted node \<open>m\<close> are still to be relaxed.\<close>

definition dist_step :: "Graph \<Rightarrow> nat \<Rightarrow> int \<Rightarrow> nat \<Rightarrow> Graph \<Rightarrow> edge list \<Rightarrow> Graph \<Rightarrow> Heap \<Rightarrow> bool" where
  "dist_step G s W m g0 es g h \<longleftrightarrow>
     tree_step G s m g0 es g h \<and> bounded_weights G W \<and> heap_ord g h \<and> length h < length G \<and>
     (\<forall>v < length G. v \<notin> set h \<longrightarrow> distance (g ! v) \<noteq> UINT_MAX) \<and>
     (\<forall>v < length G. distance (g ! v) \<noteq> UINT_MAX \<longrightarrow>
        uint (distance (g ! v)) \<le> W * int (length G - length h)) \<and>
     uint (distance (g ! m)) + W \<le> W * int (length G - length h) \<and>
     (\<forall>u < length G. u \<notin> set h \<longrightarrow> distance (g ! u) \<le> distance (g ! m)) \<and>
     (\<forall>v \<in> set h. distance (g ! m) \<le> distance (g ! v)) \<and>
     (\<forall>u < length G. u \<notin> set h \<longrightarrow>
        (\<forall>e \<in> set (edges (G ! u)).
           u = m \<and> e \<in> set es \<or>
           uint (distance (g ! destination e)) \<le> uint (distance (g ! u)) + sint (mindelay e))) \<and>
     (\<forall>v < length G. distance (g ! v) \<noteq> UINT_MAX \<longrightarrow>
        (\<exists>es. path G s es v \<and> weight es = uint (distance (g ! v))))"

text \<open>
  The distance of \<open>v\<close> in \<open>g\<close> is that of a shortest path from \<open>s\<close>: if there is a path, the
  distance is the weight of one of them and no path weighs less; if there is none, it is the
  infinity sentinel.
\<close>

definition shortest :: "Graph \<Rightarrow> nat \<Rightarrow> Graph \<Rightarrow> nat \<Rightarrow> bool" where
  "shortest G s g v \<longleftrightarrow>
     (\<forall>es. path G s es v \<longrightarrow>
        distance (g ! v) \<noteq> UINT_MAX \<and> uint (distance (g ! v)) \<le> weight es) \<and>
     (distance (g ! v) \<noteq> UINT_MAX \<longrightarrow>
        (\<exists>es. path G s es v \<and> weight es = uint (distance (g ! v))))"

text \<open>
  The states in which the \<^verbatim>\<open>while\<close> loop of \<open>dijkstra G source_id dest\<close> tests its condition:
  the state after the source has got distance 0, and the state after every iteration that
  neither breaks nor returns.
\<close>

inductive loop_state :: "Graph \<Rightarrow> u32 \<Rightarrow> nat \<Rightarrow> Graph \<Rightarrow> Heap \<Rightarrow> bool"
  for G :: Graph and source_id :: u32 and dest :: nat where
  first: "heap_new_from_graph G = Some (g0, h0) \<Longrightarrow> graph_get_node g0 source_id = Some source_node \<Longrightarrow>
          heap_decrease_distance h0 g0 source_node 0 None = Ok (g, h) \<Longrightarrow>
          loop_state G source_id dest g h"
| iteration: "loop_state G source_id dest g0 h0 \<Longrightarrow> heap_extract_min g0 h0 = Some (node, g1, h1) \<Longrightarrow>
          node_get_distance g1 node \<noteq> UINT_MAX \<Longrightarrow>
          relax_edges g1 h1 node (node_get_distance g1 node) (node_get_edges g1 node) = Ok (g, h) \<Longrightarrow>
          node \<noteq> dest \<Longrightarrow> loop_state G source_id dest g h"

text \<open>There is an edge path from \<open>a\<close> to \<open>b\<close>.\<close>

definition connected :: "Graph \<Rightarrow> nat \<Rightarrow> nat \<Rightarrow> bool" where
  "connected G a b \<longleftrightarrow> (\<exists>es. path G a es b)"













section \<open>Properties of the heap module\<close>

lemma core_of_length: "core_of g' = core_of g \<Longrightarrow> length g' = length g"
  unfolding core_of_def by (rule map_eq_imp_length_eq)

lemma core_of_nth:
  assumes "core_of g' = core_of g" and "r < length g"
  shows "(g' ! r)\<lparr>heap_index := None\<rparr> = (g ! r)\<lparr>heap_index := None\<rparr>"
proof -
  have "length g' = length g" using assms(1) by (rule core_of_length)
  with assms have "core_of g' ! r = core_of g ! r" by simp
  with assms(2) \<open>length g' = length g\<close> show ?thesis by (simp add: core_of_def)
qed

lemma core_of_fields:
  assumes "core_of g' = core_of g" and "r < length g"
  shows "distance (g' ! r) = distance (g ! r)" and "previous (g' ! r) = previous (g ! r)"
    and "node_id (g' ! r) = node_id (g ! r)" and "edges (g' ! r) = edges (g ! r)"
proof -
  from core_of_nth [OF assms] have e: "(g' ! r)\<lparr>heap_index := None\<rparr> = (g ! r)\<lparr>heap_index := None\<rparr>" .
  from arg_cong [OF e, of distance] show "distance (g' ! r) = distance (g ! r)" by simp
  from arg_cong [OF e, of previous] show "previous (g' ! r) = previous (g ! r)" by simp
  from arg_cong [OF e, of node_id] show "node_id (g' ! r) = node_id (g ! r)" by simp
  from arg_cong [OF e, of edges] show "edges (g' ! r) = edges (g ! r)" by simp
qed

lemma core_of_set_index: "core_of (g[a := (g ! a)\<lparr>heap_index := x\<rparr>]) = core_of g"
  by (cases "a < length g") (simp_all add: core_of_def map_update list_update_same_conv list_update_beyond)

lemma core_of_swap_slots: "core_of (fst (swap_slots g h i j)) = core_of g"
  by (simp add: swap_slots_def Let_def core_of_set_index)

lemma core_of_sift_up: "core_of (fst (sift_up g h i)) = core_of g"
  by (induction g h i rule: sift_up.induct) (subst sift_up.simps, simp add: core_of_swap_slots)

lemma core_of_sift_down: "core_of (fst (sift_down g h i)) = core_of g"
  by (induction g h i rule: sift_down.induct) (subst sift_down.simps, simp add: core_of_swap_slots)

lemma heap_swap_slots: "snd (swap_slots g h i j) = h[i := h ! j, j := h ! i]"
  by (simp add: swap_slots_def Let_def)

lemma mset_swap_slots:
  "i < length h \<Longrightarrow> j < length h \<Longrightarrow> mset (snd (swap_slots g h i j)) = mset h"
  by (simp add: heap_swap_slots mset_swap)

lemma length_sift_up: "length (snd (sift_up g h i)) = length h"
  by (induction g h i rule: sift_up.induct) (subst sift_up.simps, simp add: heap_swap_slots)

lemma length_sift_down: "length (snd (sift_down g h i)) = length h"
  by (induction g h i rule: sift_down.induct) (subst sift_down.simps, simp add: heap_swap_slots)

lemma mset_sift_up: "i < length h \<Longrightarrow> mset (snd (sift_up g h i)) = mset h"
proof (induction g h i rule: sift_up.induct)
  case (1 g h i)
  show ?case
  proof (cases "i \<noteq> 0 \<and> key g h i < key g h ((i - 1) div 2)")
    case True
    then have p: "(i - 1) div 2 < length h" using 1(2) by auto
    have "mset (snd (sift_up g h i)) =
          mset (snd (sift_up (fst (swap_slots g h i ((i - 1) div 2)))
                 (snd (swap_slots g h i ((i - 1) div 2))) ((i - 1) div 2)))"
      using True by (subst sift_up.simps) simp
    also have "\<dots> = mset (snd (swap_slots g h i ((i - 1) div 2)))"
      using True p by (intro 1(1)) (simp_all add: heap_swap_slots)
    also have "\<dots> = mset h" using 1(2) p by (rule mset_swap_slots)
    finally show ?thesis .
  next
    case False
    then show ?thesis by (subst sift_up.simps) auto
  qed
qed

lemma smallest_range: "smallest g h i \<noteq> i \<Longrightarrow> i < smallest g h i \<and> smallest g h i < length h"
  by (auto simp: smallest_def Let_def split: if_splits)

lemma mset_sift_down: "mset (snd (sift_down g h i)) = mset h"
proof (induction g h i rule: sift_down.induct)
  case (1 g h i)
  show ?case
  proof (cases "smallest g h i \<noteq> i")
    case True
    from smallest_range [OF True] have r: "i < length h" "smallest g h i < length h" by auto
    have "mset (snd (sift_down g h i)) =
          mset (snd (sift_down (fst (swap_slots g h i (smallest g h i)))
                 (snd (swap_slots g h i (smallest g h i))) (smallest g h i)))"
      using True by (subst sift_down.simps) simp
    also have "\<dots> = mset (snd (swap_slots g h i (smallest g h i)))"
      using True by (rule 1)
    also have "\<dots> = mset h" using r by (rule mset_swap_slots)
    finally show ?thesis .
  next
    case False
    then show ?thesis by (subst sift_down.simps) auto
  qed
qed

lemma heap_extract_min_Some:
  "heap_extract_min g h = Some (m, g1, h1) \<longleftrightarrow>
   h \<noteq> [] \<and> m = h ! 0 \<and> sift_down (detach g h) (butlast (h[0 := last h])) 0 = (g1, h1)"
  by (auto simp: heap_extract_min_def Let_def detach_def)

lemma heap_extract_min_None: "heap_extract_min g h = None \<longleftrightarrow> h = []"
  by (simp add: heap_extract_min_def Let_def)

lemma length_heap_extract_min:
  assumes "heap_extract_min g h = Some (m, g1, h1)"
  shows "Suc (length h1) = length h"
proof -
  from assms have ne: "h \<noteq> []"
    and sd: "sift_down (detach g h) (butlast (h[0 := last h])) 0 = (g1, h1)"
    by (simp_all add: heap_extract_min_Some)
  from sd have "h1 = snd (sift_down (detach g h) (butlast (h[0 := last h])) 0)" by simp
  then have "length h1 = length h - 1" by (simp add: length_sift_down)
  with ne show ?thesis by (cases h) auto
qed

lemma heap_decrease_distance_Ok:
  "heap_decrease_distance h g n v p = Ok (g', h') \<longleftrightarrow>
   (\<exists>i. heap_index (g ! n) = Some i \<and>
        sift_up (g[n := (g ! n)\<lparr>distance := v, previous := p\<rparr>]) h i = (g', h'))"
  by (auto simp: heap_decrease_distance_def split: option.splits)

lemma length_heap_decrease_distance:
  assumes "heap_decrease_distance h g n v p = Ok (g', h')"
  shows "length h' = length h"
proof -
  from assms obtain i where "sift_up (g[n := (g ! n)\<lparr>distance := v, previous := p\<rparr>]) h i = (g', h')"
    by (auto simp: heap_decrease_distance_Ok)
  then have "h' = snd (sift_up (g[n := (g ! n)\<lparr>distance := v, previous := p\<rparr>]) h i)" by simp
  then show ?thesis by (simp add: length_sift_up)
qed

lemma length_relax:
  "relax g h node d e = Ok (g', h') \<Longrightarrow> length h' = length h"
  by (auto simp: relax_def Let_def length_heap_decrease_distance split: if_splits)

lemma length_relax_edges:
  "relax_edges g h node d es = Ok (g', h') \<Longrightarrow> length h' = length h"
proof (induction es arbitrary: g h)
  case Nil
  then show ?case by simp
next
  case (Cons e es)
  then obtain g1 h1 where r: "relax g h node d e = Ok (g1, h1)"
    and rest: "relax_edges g1 h1 node d es = Ok (g', h')"
    by (auto split: res.splits)
  from Cons.IH [OF rest] length_relax [OF r] show ?case by simp
qed


lemma mset_butlast_root: "h \<noteq> [] \<Longrightarrow> mset h = add_mset (h ! 0) (mset (butlast (h[0 := last h])))"
proof (cases h)
  case Nil
  assume "h \<noteq> []"
  with Nil show ?thesis by simp
next
  case (Cons x xs)
  show ?thesis
  proof (cases "xs = []")
    case True
    with Cons show ?thesis by simp
  next
    case False
    then have "mset xs = add_mset (last xs) (mset (butlast xs))"
      by (metis append_butlast_last_id mset.simps(2) mset_append mset.simps(1) add.right_neutral add_mset_add_single union_mset_add_mset_right)
    with Cons False show ?thesis by simp
  qed
qed


lemma dijkstra_loop_break:
  assumes "heap_extract_min g h = Some (node, g1, h1)" and "node_get_distance g1 node = UINT_MAX"
  shows "dijkstra_loop g h dest = Some (Ok (g1, h1))"
proof -
  from assms(1) have "h \<noteq> []" by (simp add: heap_extract_min_Some)
  with assms show ?thesis
    by (subst dijkstra_loop.simps) (simp add: heap_is_empty_def Let_def)
qed


lemma heap_decrease_distance_fields:
  assumes ok: "heap_decrease_distance h g n v p = Ok (g', h')" and n: "n < length g"
  shows "length g' = length g"
    and "distance (g' ! n) = v" and "previous (g' ! n) = p"
    and "\<And>r. r < length g \<Longrightarrow> r \<noteq> n \<Longrightarrow>
           distance (g' ! r) = distance (g ! r) \<and> previous (g' ! r) = previous (g ! r)"
    and "\<And>r. r < length g \<Longrightarrow> node_id (g' ! r) = node_id (g ! r) \<and> edges (g' ! r) = edges (g ! r)"
proof -
  define gu where "gu = g[n := (g ! n)\<lparr>distance := v, previous := p\<rparr>]"
  from ok obtain i where "sift_up gu h i = (g', h')"
    by (auto simp: heap_decrease_distance_Ok gu_def)
  then have "g' = fst (sift_up gu h i)" by simp
  then have c: "core_of g' = core_of gu" by (simp add: core_of_sift_up)
  have lu: "length gu = length g" by (simp add: gu_def)
  from core_of_length [OF c] lu show "length g' = length g" by simp
  from n lu have nu: "n < length gu" by simp
  from core_of_fields(1) [OF c nu] n show "distance (g' ! n) = v" by (simp add: gu_def)
  from core_of_fields(2) [OF c nu] n show "previous (g' ! n) = p" by (simp add: gu_def)
  show "distance (g' ! r) = distance (g ! r) \<and> previous (g' ! r) = previous (g ! r)"
    if "r < length g" "r \<noteq> n" for r
    using core_of_fields(1,2) [OF c, of r] that lu by (simp add: gu_def)
  show "node_id (g' ! r) = node_id (g ! r) \<and> edges (g' ! r) = edges (g ! r)"
    if "r < length g" for r
    using core_of_fields(3,4) [OF c, of r] that lu by (cases "r = n") (simp_all add: gu_def)
qed

lemma dijkstra_loop_iteration:
  assumes "heap_extract_min g0 h0 = Some (node, g, h)" and "node_get_distance g node \<noteq> UINT_MAX"
  shows "dijkstra_loop g0 h0 dest =
          (case relax_edges g h node (node_get_distance g node) (node_get_edges g node) of
             Ok (g2, h2) \<Rightarrow> if node = dest then Some (Ok (g2, h2)) else dijkstra_loop g2 h2 dest
           | Err x \<Rightarrow> Some (Err x)
           | Undefined \<Rightarrow> Some Undefined)"
proof -
  from assms(1) have "h0 \<noteq> []" by (simp add: heap_extract_min_Some)
  with assms show ?thesis
    by (subst dijkstra_loop.simps) (simp add: heap_is_empty_def Let_def)
qed

lemma relax_effect:
  assumes "destination e < length g" and "heap_index (g ! destination e) \<noteq> None"
  shows "\<exists>g' h'. relax g h node d e = Ok (g', h') \<and>
           node_get_distance g' (destination e) =
             (if d + mindelay e < node_get_distance g (destination e) then d + mindelay e
              else node_get_distance g (destination e)) \<and>
           node_get_previous g' (destination e) =
             (if d + mindelay e < node_get_distance g (destination e) then Some node
              else node_get_previous g (destination e)) \<and>
           (if d + mindelay e < node_get_distance g (destination e)
            then relax g h node d e = heap_decrease_distance h g (destination e) (d + mindelay e) (Some node)
            else (g', h') = (g, h)) \<and>
           (\<forall>r < length g. r \<noteq> destination e \<longrightarrow>
              node_get_distance g' r = node_get_distance g r \<and>
              node_get_previous g' r = node_get_previous g r)"
proof (cases "d + mindelay e < node_get_distance g (destination e)")
  case False
  then show ?thesis by (simp add: relax_def Let_def)
next
  case True
  from assms(2) obtain i where "heap_index (g ! destination e) = Some i" by auto
  then obtain g' h' where
    ok: "heap_decrease_distance h g (destination e) (d + mindelay e) (Some node) = Ok (g', h')"
    by (cases "sift_up (g[destination e := (g ! destination e)\<lparr>distance := d + mindelay e, previous := Some node\<rparr>]) h i")
       (simp add: heap_decrease_distance_def)
  from heap_decrease_distance_fields [OF ok assms(1)] True ok show ?thesis
    by (simp add: relax_def Let_def node_get_distance_def node_get_previous_def)
qed

lemma uint_add_sint: "uint (d + w) = (uint d + sint w) mod 2 ^ 32" for d w :: "32 word"
proof -
  have "d + w = word_of_int (uint d + sint w)" by simp
  then have "uint (d + w) = uint (word_of_int (uint d + sint w) :: 32 word)" by simp
  also have "\<dots> = (uint d + sint w) mod 2 ^ 32" by (simp only: uint_word_of_int) simp
  finally show ?thesis .
qed

lemma sint_neg_uint: "sint w < 0 \<Longrightarrow> uint w = 2 ^ 32 + sint w" for w :: "32 word"
proof -
  assume neg: "sint w < 0"
  have "uint w = uint (word_of_int (sint w) :: 32 word)" by simp
  also have "\<dots> = sint w mod 2 ^ 32" by (simp only: uint_word_of_int) simp
  finally have u: "uint w = sint w mod 2 ^ 32" .
  have lo: "- (2 ^ 31) \<le> sint w" using sint_ge [of w] by simp
  from neg lo have "(sint w + 2 ^ 32) mod 2 ^ 32 = sint w + 2 ^ 32"
    by (intro mod_pos_pos_trivial) auto
  moreover have "(sint w + 2 ^ 32) mod 2 ^ 32 = sint w mod 2 ^ 32"
    by simp
  ultimately show ?thesis using u by simp
qed

subsection \<open>The renderer\<close>

lemma print_loop_chain:
  "is_chain g (v # ns) \<Longrightarrow>
   print_loop g v (node_get_previous g v) out =
     Some (out @ concat (map (\<lambda>(p, n). edge_line g p n) (zip ns (v # ns))))"
proof (induction ns arbitrary: v out)
  case Nil
  then show ?case by (subst print_loop.simps) (simp add: node_get_previous_def)
next
  case (Cons u ns)
  then have p: "previous (g ! v) = Some u" and c: "is_chain g (u # ns)" by simp_all
  from Cons.IH [OF c, of "out @ edge_line g u v"] p show ?case
    by (subst print_loop.simps) (simp add: node_get_previous_def)
qed

lemma print_loop_returns_chain:
  assumes "print_loop g v p out = Some y"
  shows "p = node_get_previous g v \<longrightarrow> (\<exists>ns. is_chain g (v # ns))"
proof (rule print_loop.raw_induct
    [where P = "\<lambda>g v p out y. p = node_get_previous g v \<longrightarrow> (\<exists>ns. is_chain g (v # ns))", OF _ assms])
  fix pl :: "Graph \<Rightarrow> nat \<Rightarrow> nat option \<Rightarrow> string \<Rightarrow> string option"
  fix g tmp_node tmp_prev out y
  assume IH: "\<And>a b c d y. pl a b c d = Some y \<Longrightarrow>
                c = node_get_previous a b \<longrightarrow> (\<exists>ns. is_chain a (b # ns))"
    and body: "(case tmp_prev of None \<Rightarrow> Some out
                | Some p \<Rightarrow> pl g p (node_get_previous g p) (out @ edge_line g p tmp_node)) = Some y"
  show "tmp_prev = node_get_previous g tmp_node \<longrightarrow> (\<exists>ns. is_chain g (tmp_node # ns))"
  proof
    assume e: "tmp_prev = node_get_previous g tmp_node"
    show "\<exists>ns. is_chain g (tmp_node # ns)"
    proof (cases tmp_prev)
      case None
      with e have "is_chain g [tmp_node]" by (simp add: node_get_previous_def)
      then show ?thesis by blast
    next
      case (Some u)
      with body have st: "pl g u (node_get_previous g u) (out @ edge_line g u tmp_node) = Some y"
        by simp
      from IH [OF st] obtain ns where "is_chain g (u # ns)" by blast
      with Some e have "is_chain g (tmp_node # u # ns)" by (simp add: node_get_previous_def)
      then show ?thesis by blast
    qed
  qed
qed

lemma is_chain_unique: "is_chain g (v # ns) \<Longrightarrow> is_chain g (v # ms) \<Longrightarrow> ns = ms"
proof (induction ns arbitrary: v ms)
  case Nil
  then show ?case by (cases ms) auto
next
  case (Cons u ns)
  then show ?case by (cases ms) auto
qed

subsection \<open>The loaders\<close>

lemma digits_value_no_digit: "(cs = [] \<or> \<not> isdigit (hd cs)) \<Longrightarrow> digits_value cs = 0"
  by (cases cs) (auto simp: digits_value_def)

lemma atoi_value_no_leading_digit:
  assumes "no_leading_digit s"
  shows "atoi_value s = 0"
proof (cases "dropWhile isspace s")
  case Nil
  show ?thesis unfolding atoi_value_def Nil by simp
next
  case (Cons c cs)
  from assms have n: "if c = CHR ''-'' \<or> c = CHR ''+''
                      then (case cs of [] \<Rightarrow> True | x # xs \<Rightarrow> \<not> isdigit x) else \<not> isdigit c"
    unfolding no_leading_digit_def Cons by simp
  show ?thesis
  proof (cases "c = CHR ''-'' \<or> c = CHR ''+''")
    case True
    with n have "cs = [] \<or> \<not> isdigit (hd cs)" by (cases cs) auto
    then have "digits_value cs = 0" by (rule digits_value_no_digit)
    with True show ?thesis unfolding atoi_value_def Cons by auto
  next
    case False
    with n have "\<not> isdigit c" by simp
    then have "digits_value (c # cs) = 0" by (intro digits_value_no_digit) simp
    with False show ?thesis unfolding atoi_value_def Cons by auto
  qed
qed

lemma atoi_no_leading_digit: "no_leading_digit s \<Longrightarrow> atoi (Some s) = Ok 0"
  by (simp add: atoi_def atoi_value_no_leading_digit)













lemma digit_char: "k < 10 \<Longrightarrow> of_char (''0123456789'' ! k) = (48 + k :: nat)"
proof -
  assume "k < 10"
  then have "k \<in> {0, 1, 2, 3, 4, 5, 6, 7, 8, 9}" by auto
  then show ?thesis by auto
qed

lemma dec_digits: "list_all isdigit (dec n) \<and> dec n \<noteq> []"
proof (induction n rule: dec.induct)
  case (1 n)
  have d: "isdigit (''0123456789'' ! k)" if "k < 10" for k
    using digit_char [OF that] that by (simp add: isdigit_def)
  show ?case
  proof (cases "n < 10")
    case True
    with d [of n] show ?thesis by (subst dec.simps, subst dec.simps) simp
  next
    case False
    with 1 d [of "n mod 10"] show ?thesis by (subst dec.simps, subst dec.simps) simp
  qed
qed

lemma foldl_dec: "foldl (\<lambda>v c. 10 * v + (int (of_char c) - 48)) 0 (dec n) = int n"
proof (induction n rule: dec.induct)
  case (1 n)
  show ?case
  proof (cases "n < 10")
    case True
    with digit_char [of n] show ?thesis by (subst dec.simps) simp
  next
    case False
    have "10 * int (n div 10) + int (n mod 10) = int n" by presburger
    with False 1 digit_char [of "n mod 10"] show ?thesis by (subst dec.simps) simp
  qed
qed

lemma takeWhile_all_then: "list_all P xs \<Longrightarrow> ys = [] \<or> \<not> P (hd ys) \<Longrightarrow> takeWhile P (xs @ ys) = xs"
proof -
  assume a: "list_all P xs" and "ys = [] \<or> \<not> P (hd ys)"
  then have "takeWhile P ys = []" by (cases ys) auto
  with a show ?thesis by (induction xs) auto
qed

lemma atoi_value_dec:
  assumes "x = [] \<or> \<not> isdigit (hd x)"
  shows "atoi_value (dec n @ x) = int n"
proof -
  from dec_digits [of n] obtain c cs where d: "dec n = c # cs" and c: "isdigit c"
    by (cases "dec n") auto
  from c have ns: "\<not> isspace c" "c \<noteq> CHR ''-''" "c \<noteq> CHR ''+''"
    by (auto simp: isdigit_def isspace_def)
  have t: "takeWhile isdigit (dec n @ x) = dec n"
    using dec_digits [of n] assms by (intro takeWhile_all_then) auto
  have "atoi_value (dec n @ x) = digits_value (dec n @ x)"
    using ns by (simp add: atoi_value_def d)
  also have "\<dots> = int n"
    unfolding digits_value_def t by (rule foldl_dec)
  finally show ?thesis .
qed

lemma atoi_not_Err: "atoi p \<noteq> Err x"
  by (simp add: atoi_def split: option.splits)

lemma heap_decrease_distance_not_Err: "heap_decrease_distance h g n v p \<noteq> Err x"
  by (simp add: heap_decrease_distance_def split: option.splits)

lemma relax_not_Err: "relax g h node d e \<noteq> Err x"
  by (simp add: relax_def Let_def heap_decrease_distance_not_Err)

lemma relax_edges_not_Err: "relax_edges g h node d es \<noteq> Err x"
proof (induction es arbitrary: g h)
  case Nil
  show ?case by simp
next
  case (Cons e es)
  show ?case
  proof (cases "relax g h node d e")
    case Undefined
    then show ?thesis by simp
  next
    case (Err y)
    with relax_not_Err [of g h node d e y] show ?thesis by simp
  next
    case (Ok s)
    with Cons show ?thesis by (cases s) simp
  qed
qed

lemma dijkstra_loop_not_Err: "dijkstra_loop g h dest \<noteq> Some (Err x)"
proof (induction "length h" arbitrary: g h rule: less_induct)
  case less
  show ?case
  proof (cases "h = []")
    case True
    then show ?thesis by (subst dijkstra_loop.simps) (simp add: heap_is_empty_def)
  next
    case False
    then obtain m g1 h1 where ex: "heap_extract_min g h = Some (m, g1, h1)"
      by (cases "heap_extract_min g h") (auto simp: heap_extract_min_None)
    from length_heap_extract_min [OF ex] have l1: "length h1 < length h" by simp
    show ?thesis
    proof (cases "relax_edges g1 h1 m (node_get_distance g1 m) (node_get_edges g1 m)")
      case Undefined
      with ex False show ?thesis
        by (subst dijkstra_loop.simps) (simp add: heap_is_empty_def Let_def)
    next
      case (Err y)
      with relax_edges_not_Err show ?thesis by blast
    next
      case (Ok s)
      obtain g2 h2 where s: "s = (g2, h2)" by (cases s) auto
      from length_relax_edges [OF Ok [unfolded s]] l1 have "length h2 < length h" by simp
      from less [OF this] have "dijkstra_loop g2 h2 dest \<noteq> Some (Err x)" .
      with ex False Ok s show ?thesis
        by (subst dijkstra_loop.simps) (simp add: heap_is_empty_def Let_def)
    qed
  qed
qed

lemma graph_get_node_heap_new:
  "graph_get_node (map (\<lambda>k. (g ! k)\<lparr>heap_index := Some k\<rparr>) [0..<length g]) i = graph_get_node g i"
  unfolding graph_get_node_def by (rule find_cong) auto

lemma dijkstra_Err_iff:
  "dijkstra g sid dest = Some (Err x) \<longleftrightarrow> x = INVALID_SOURCE_NODE_ID \<and> graph_get_node g sid = None"
  using dijkstra_loop_not_Err heap_decrease_distance_not_Err
  by (auto simp: dijkstra_def heap_new_from_graph_def graph_get_node_heap_new
      split: option.splits res.splits)

lemma fail_inject: "fail a = fail b \<longleftrightarrow> a = b"
  by (cases a; cases b; simp add: fail_def errorHandle_def)

lemma search_and_print_cong:
  assumes a: "atoi (Some s) = atoi (Some s')" and b: "atoi (Some d) = atoi (Some d')"
  shows "search_and_print e g s d out = search_and_print e g s' d' out"
  unfolding search_and_print_def a b by (rule refl)

lemma app_cong:
  assumes a: "atoi (Some s) = atoi (Some s')" and b: "atoi (Some d) = atoi (Some d')"
  shows "app e nf ef s d out = app e nf ef s' d' out"
  unfolding app_def search_and_print_cong [OF a b] by (rule refl)

lemma fail_not_success:
  "fail x \<noteq> Exit \<lparr>exit_code = 0, stderr = a, stdout = b, created_file = c\<rparr>"
  "Exit \<lparr>exit_code = 0, stderr = a, stdout = b, created_file = c\<rparr> \<noteq> fail x"
  "fail x \<noteq> Crash" "Crash \<noteq> fail x"
  by (simp_all add: fail_def)

lemma invalid_dest_iff:
  assumes "atoi (Some d) = Ok k"
  shows "search_and_print e g s d out = Some (fail INVALID_DEST_NODE_ID) \<longleftrightarrow> graph_get_node g k = None"
  using assms atoi_not_Err [of "Some s"]
  by (auto simp: search_and_print_def fail_inject dijkstra_Err_iff fail_not_success
      split: option.splits res.splits if_splits)

lemma invalid_source_iff:
  assumes "atoi (Some d) = Ok k" and "graph_get_node g k \<noteq> None" and "atoi (Some s) = Ok i"
  shows "search_and_print e g s d out = Some (fail INVALID_SOURCE_NODE_ID) \<longleftrightarrow> graph_get_node g i = None"
proof (cases "graph_get_node g i")
  case None
  from assms(2) obtain y where y: "graph_get_node g k = Some y" by auto
  from None have "dijkstra g i y = Some (Err INVALID_SOURCE_NODE_ID)"
    by (simp add: dijkstra_Err_iff)
  with assms y None show ?thesis by (simp add: search_and_print_def)
next
  case (Some j)
  then have "dijkstra g i y \<noteq> Some (Err x)" for x y
    by (simp add: dijkstra_Err_iff)
  with assms Some show ?thesis
    by (auto simp: search_and_print_def fail_inject fail_not_success
        split: option.splits res.splits if_splits)
qed

lemma atoi_dec_prefix:
  assumes "x = [] \<or> \<not> isdigit (hd x)"
  shows "atoi (Some (dec n @ x)) = atoi (Some (dec n))"
  using atoi_value_dec [OF assms, of n] atoi_value_dec [of "[]" n]
  by (simp add: atoi_def)

subsection \<open>The slots recorded in the nodes\<close>

lemma idx_inv_member: "idx_inv g h \<Longrightarrow> r < length g \<Longrightarrow> r \<in> set h \<longleftrightarrow> heap_index (g ! r) \<noteq> None"
  by (auto simp: idx_inv_def in_set_conv_nth)

lemma idx_inv_bound: "idx_inv g h \<Longrightarrow> r \<in> set h \<Longrightarrow> r < length g"
  by (auto simp: idx_inv_def in_set_conv_nth)

lemma idx_inv_slot: "idx_inv g h \<Longrightarrow> heap_index (g ! r) = Some i \<Longrightarrow> r < length g \<Longrightarrow> i < length h \<and> h ! i = r"
  by (metis idx_inv_def in_set_conv_nth option.distinct(1) option.inject)

lemma idx_inv_swap_slots:
  assumes inv: "idx_inv g h" and i: "i < length h" and j: "j < length h"
  shows "idx_inv (fst (swap_slots g h i j)) (snd (swap_slots g h i j))"
proof -
  define a b where "a = h ! i" and "b = h ! j"
  define g1 where "g1 = g[a := (g ! a)\<lparr>heap_index := Some j\<rparr>]"
  define g2 where "g2 = g1[b := (g1 ! b)\<lparr>heap_index := Some i\<rparr>]"
  define h' where "h' = h[i := b, j := a]"
  have sw: "swap_slots g h i j = (g2, h')"
    by (simp add: swap_slots_def Let_def a_def b_def g1_def g2_def h'_def)
  from inv have d: "distinct h"
    and sl: "\<And>k. k < length h \<Longrightarrow> h ! k < length g \<and> heap_index (g ! (h ! k)) = Some k"
    and ou: "\<And>r. r < length g \<Longrightarrow> r \<notin> set h \<Longrightarrow> heap_index (g ! r) = None"
    by (auto simp: idx_inv_def)
  have al: "a < length g" and bl: "b < length g" using sl i j by (auto simp: a_def b_def)
  have lg: "length g2 = length g" by (simp add: g1_def g2_def)
  have ms: "mset h' = mset h"
    unfolding h'_def a_def b_def using i j by (simp add: mset_swap)
  then have st: "set h' = set h" by (rule mset_eq_setD)
  from ms d have d': "distinct h'" by (metis mset_eq_imp_distinct_iff)
  have ab: "a = b \<longleftrightarrow> i = j"
    using d i j by (auto simp: a_def b_def nth_eq_iff_index_eq)
  have ga: "heap_index (g2 ! a) = Some j"
    using al bl ab by (auto simp: g2_def g1_def)
  have gb: "heap_index (g2 ! b) = Some i"
    using al bl by (auto simp: g2_def g1_def)
  have go: "g2 ! r = g ! r" if "r \<noteq> a" "r \<noteq> b" for r
    using that by (simp add: g2_def g1_def)
  have "h' ! k < length g2 \<and> heap_index (g2 ! (h' ! k)) = Some k" if k: "k < length h'" for k
  proof -
    from k have kl: "k < length h" by (simp add: h'_def)
    consider "k = j" | "k = i" "k \<noteq> j" | "k \<noteq> i" "k \<noteq> j" by blast
    then show ?thesis
    proof cases
      case 1
      with j have "h' ! k = a" by (simp add: h'_def)
      with ga al lg 1 show ?thesis by simp
    next
      case 2
      with i have "h' ! k = b" by (simp add: h'_def)
      with gb bl lg 2 show ?thesis by simp
    next
      case 3
      then have e: "h' ! k = h ! k" by (simp add: h'_def)
      from 3 d kl i j have "h ! k \<noteq> a" "h ! k \<noteq> b"
        by (auto simp: a_def b_def nth_eq_iff_index_eq)
      with e go [of "h ! k"] sl [OF kl] lg show ?thesis by simp
    qed
  qed
  moreover have "heap_index (g2 ! r) = None" if "r < length g2" "r \<notin> set h'" for r
  proof -
    from that st have r: "r < length g" "r \<notin> set h" by (simp_all add: lg)
    with i j have "r \<noteq> a" "r \<noteq> b" by (auto simp: a_def b_def)
    with go [of r] ou [OF r] show ?thesis by simp
  qed
  ultimately show ?thesis unfolding sw idx_inv_def using d' by simp
qed

lemma idx_inv_sift_up: "idx_inv g h \<Longrightarrow> i < length h \<Longrightarrow> idx_inv (fst (sift_up g h i)) (snd (sift_up g h i))"
proof (induction g h i rule: sift_up.induct)
  case (1 g h i)
  show ?case
  proof (cases "i \<noteq> 0 \<and> key g h i < key g h ((i - 1) div 2)")
    case True
    then have p: "(i - 1) div 2 < length h" using 1(3) by auto
    from True have c: "i \<noteq> 0" "key g h i < key g h ((i - 1) div 2)" by simp_all
    have s: "idx_inv (fst (swap_slots g h i ((i - 1) div 2))) (snd (swap_slots g h i ((i - 1) div 2)))"
      using 1(2) 1(3) p by (rule idx_inv_swap_slots)
    have pl: "(i - 1) div 2 < length (snd (swap_slots g h i ((i - 1) div 2)))"
      using p by (simp add: heap_swap_slots)
    have e: "sift_up g h i = sift_up (fst (swap_slots g h i ((i - 1) div 2)))
               (snd (swap_slots g h i ((i - 1) div 2))) ((i - 1) div 2)"
      using c by (subst sift_up.simps) simp
    show ?thesis unfolding e using c s pl by (rule 1(1))
  next
    case False
    then have "sift_up g h i = (g, h)" by (subst sift_up.simps) auto
    with 1(2) show ?thesis by simp
  qed
qed

lemma idx_inv_sift_down: "idx_inv g h \<Longrightarrow> idx_inv (fst (sift_down g h i)) (snd (sift_down g h i))"
proof (induction g h i rule: sift_down.induct)
  case (1 g h i)
  show ?case
  proof (cases "smallest g h i \<noteq> i")
    case True
    from smallest_range [OF True] have r: "i < length h" "smallest g h i < length h" by auto
    from idx_inv_swap_slots [OF 1(2) r]
    have "idx_inv (fst (swap_slots g h i (smallest g h i))) (snd (swap_slots g h i (smallest g h i)))" .
    have e: "sift_down g h i = sift_down (fst (swap_slots g h i (smallest g h i)))
               (snd (swap_slots g h i (smallest g h i))) (smallest g h i)"
      using True by (subst sift_down.simps) simp
    from 1(1) [OF True \<open>idx_inv (fst (swap_slots g h i (smallest g h i))) (snd (swap_slots g h i (smallest g h i)))\<close>]
    show ?thesis unfolding e .
  next
    case False
    then have "sift_down g h i = (g, h)" by (subst sift_down.simps) auto
    with 1(2) show ?thesis by simp
  qed
qed

lemma idx_inv_heap_new:
  "idx_inv (map (\<lambda>k. (g ! k)\<lparr>heap_index := Some k\<rparr>) [0..<length g]) [0..<length g]"
  by (simp add: idx_inv_def)

lemma core_of_heap_new:
  "core_of (map (\<lambda>k. (g ! k)\<lparr>heap_index := Some k\<rparr>) [0..<length g]) = core_of g"
proof -
  have "core_of (map (\<lambda>k. (g ! k)\<lparr>heap_index := Some k\<rparr>) [0..<length g]) =
        map (\<lambda>n. n\<lparr>heap_index := None\<rparr>) (map (\<lambda>k. g ! k) [0..<length g])"
    by (simp add: core_of_def)
  also have "map (\<lambda>k. g ! k) [0..<length g] = g" by (rule map_nth)
  finally show ?thesis by (simp add: core_of_def)
qed

lemma idx_inv_detach:
  assumes inv: "idx_inv g h" and ne: "h \<noteq> []"
  shows "idx_inv (detach g h) (butlast (h[0 := last h]))"
proof -
  define m l where "m = h ! 0" and "l = last h"
  define g1 where "g1 = g[l := (g ! l)\<lparr>heap_index := Some 0\<rparr>]"
  define g2 where "g2 = g1[m := (g1 ! m)\<lparr>heap_index := None\<rparr>]"
  define h' where "h' = butlast (h[0 := l])"
  have dt: "detach g h = g2" by (simp add: detach_def g1_def g2_def m_def l_def)
  from inv have d: "distinct h"
    and sl: "\<And>k. k < length h \<Longrightarrow> h ! k < length g \<and> heap_index (g ! (h ! k)) = Some k"
    and ou: "\<And>r. r < length g \<Longrightarrow> r \<notin> set h \<Longrightarrow> heap_index (g ! r) = None"
    by (auto simp: idx_inv_def)
  from ne have n0: "0 < length h" by simp
  have ll: "l = h ! (length h - 1)" using ne by (simp add: l_def last_conv_nth)
  have ml: "m < length g" "l < length g" using sl n0 ll by (auto simp: m_def)
  have lg: "length g2 = length g" by (simp add: g1_def g2_def)
  have lh: "length h' = length h - 1" by (simp add: h'_def)
  have nth': "h' ! k = (if k = 0 then l else h ! k)" if "k < length h'" for k
  proof -
    from that lh have "k < length h - 1" by simp
    then have "h' ! k = (h[0 := l]) ! k" by (simp add: h'_def nth_butlast)
    with n0 show ?thesis by (simp add: nth_list_update)
  qed
  have meq: "m = l \<longleftrightarrow> length h = 1"
  proof
    assume "m = l"
    with d n0 ll have "0 = length h - 1" by (simp add: m_def nth_eq_iff_index_eq)
    with n0 show "length h = 1" by linarith
  next
    assume "length h = 1"
    with ll show "m = l" by (simp add: m_def)
  qed
  have "mset h = mset (m # h')"
    using mset_butlast_root [OF ne] by (simp add: m_def h'_def l_def)
  then have dm: "distinct (m # h')" and sm: "set h = set (m # h')"
    using d mset_eq_imp_distinct_iff [of h "m # h'"] mset_eq_setD [of h "m # h'"] by blast+
  from dm have d': "distinct h'" and mn: "m \<notin> set h'" by simp_all
  from sm mn have set': "set h' = set h - {m}" by auto
  have gm: "heap_index (g2 ! m) = None" using ml by (simp add: g2_def g1_def)
  have gl: "m \<noteq> l \<Longrightarrow> heap_index (g2 ! l) = Some 0" using ml by (simp add: g2_def g1_def)
  have go: "g2 ! r = g ! r" if "r \<noteq> m" "r \<noteq> l" for r
    using that by (simp add: g2_def g1_def)
  have "h' ! k < length g2 \<and> heap_index (g2 ! (h' ! k)) = Some k" if k: "k < length h'" for k
  proof (cases "k = 0")
    case True
    from k lh have "length h \<noteq> 1" by simp
    with meq have "m \<noteq> l" by simp
    with True nth' [OF k] gl ml lg show ?thesis by simp
  next
    case False
    from k lh have kl: "k < length h" "k \<noteq> length h - 1" by auto
    with False d n0 ll have "h ! k \<noteq> m" "h ! k \<noteq> l"
      by (auto simp: m_def nth_eq_iff_index_eq)
    with go [of "h ! k"] sl [OF kl(1)] nth' [OF k] False lg show ?thesis by simp
  qed
  moreover have "heap_index (g2 ! r) = None" if r: "r < length g2" "r \<notin> set h'" for r
  proof (cases "r = m")
    case True
    with gm show ?thesis by simp
  next
    case False
    with r set' have rr: "r \<notin> set h" "r < length g" by (auto simp: lg)
    then have "r \<noteq> l" using ne by (auto simp: l_def)
    with False go [of r] ou [OF rr(2) rr(1)] show ?thesis by simp
  qed
  ultimately have "idx_inv g2 h'" unfolding idx_inv_def using d' by simp
  then show ?thesis by (simp add: dt h'_def l_def)
qed

lemma set_butlast_root:
  assumes "distinct h" and "h \<noteq> []"
  shows "set (butlast (h[0 := last h])) = set h - {h ! 0}"
proof -
  have "mset h = mset (h ! 0 # butlast (h[0 := last h]))"
    using mset_butlast_root [OF assms(2)] by simp
  then have "distinct (h ! 0 # butlast (h[0 := last h]))"
    and "set h = set (h ! 0 # butlast (h[0 := last h]))"
    using assms(1) mset_eq_imp_distinct_iff [of h "h ! 0 # butlast (h[0 := last h])"]
      mset_eq_setD [of h "h ! 0 # butlast (h[0 := last h])"] by blast+
  then show ?thesis by auto
qed

lemma core_of_detach: "core_of (detach g h) = core_of g"
  unfolding detach_def by (simp only: core_of_set_index)

lemma heap_extract_min_inv:
  assumes inv: "idx_inv g h" and ex: "heap_extract_min g h = Some (m, g1, h1)"
  shows "idx_inv g1 h1" and "set h1 = set h - {m}" and "m \<in> set h" and "m < length g"
    and "core_of g1 = core_of g"
proof -
  from ex have ne: "h \<noteq> []" and m: "m = h ! 0"
    and sd: "sift_down (detach g h) (butlast (h[0 := last h])) 0 = (g1, h1)"
    by (simp_all add: heap_extract_min_Some)
  from sd have g1: "g1 = fst (sift_down (detach g h) (butlast (h[0 := last h])) 0)"
    and h1: "h1 = snd (sift_down (detach g h) (butlast (h[0 := last h])) 0)" by simp_all
  from idx_inv_sift_down [OF idx_inv_detach [OF inv ne], of 0] show "idx_inv g1 h1"
    by (simp add: g1 h1)
  from inv have d: "distinct h" by (simp add: idx_inv_def)
  have "mset h1 = mset (butlast (h[0 := last h]))" by (simp add: h1 mset_sift_down)
  then have "set h1 = set (butlast (h[0 := last h]))" by (rule mset_eq_setD)
  with set_butlast_root [OF d ne] m show "set h1 = set h - {m}" by simp
  from ne m show "m \<in> set h" by (cases h) auto
  with inv show "m < length g" by (rule idx_inv_bound)
  show "core_of g1 = core_of g" by (simp add: g1 core_of_sift_down core_of_detach)
qed

lemma heap_index_update_fields:
  "heap_index (g[n := (g ! n)\<lparr>distance := v, previous := p\<rparr>] ! r) = heap_index (g ! r)"
  by (cases "n < length g"; cases "r = n") (simp_all add: list_update_beyond)

lemma idx_inv_update_fields:
  "idx_inv g h \<Longrightarrow> idx_inv (g[n := (g ! n)\<lparr>distance := v, previous := p\<rparr>]) h"
  by (simp add: idx_inv_def heap_index_update_fields)

lemma heap_decrease_distance_inv:
  assumes inv: "idx_inv g h" and n: "n < length g" and m: "n \<in> set h"
  shows "\<exists>g' h'. heap_decrease_distance h g n v p = Ok (g', h') \<and> idx_inv g' h' \<and>
           set h' = set h \<and> length h' = length h \<and>
           core_of g' = core_of (g[n := (g ! n)\<lparr>distance := v, previous := p\<rparr>])"
proof -
  define gu where "gu = g[n := (g ! n)\<lparr>distance := v, previous := p\<rparr>]"
  from idx_inv_member [OF inv n] m obtain i where i: "heap_index (g ! n) = Some i" by auto
  from idx_inv_slot [OF inv i n] have il: "i < length h" by simp
  have iu: "idx_inv gu h" unfolding gu_def using inv by (rule idx_inv_update_fields)
  have r: "heap_decrease_distance h g n v p = Ok (fst (sift_up gu h i), snd (sift_up gu h i))"
    using i by (simp add: heap_decrease_distance_def gu_def)
  have s: "set (snd (sift_up gu h i)) = set h"
    using mset_sift_up [OF il, of gu] by (rule mset_eq_setD)
  have l: "length (snd (sift_up gu h i)) = length h" by (rule length_sift_up)
  have c: "core_of (fst (sift_up gu h i)) = core_of gu" by (rule core_of_sift_up)
  show ?thesis
    unfolding gu_def [symmetric]
    by (intro exI [of _ "fst (sift_up gu h i)"] exI [of _ "snd (sift_up gu h i)"] conjI
        r idx_inv_sift_up [OF iu il] s l c)
qed

lemma heap_decrease_distance_absent:
  "idx_inv g h \<Longrightarrow> n < length g \<Longrightarrow> n \<notin> set h \<Longrightarrow> heap_decrease_distance h g n v p = Undefined"
  using idx_inv_member [of g h n] by (auto simp: heap_decrease_distance_def)

lemma heap_decrease_distance_present:
  assumes "idx_inv g h" and "n < length g" and "heap_decrease_distance h g n v p = Ok (g', h')"
  shows "n \<in> set h"
  using assms heap_decrease_distance_absent [of g h n v p] by (cases "n \<in> set h") auto

subsection \<open>Invariants of the search loop\<close>

lemma relax_edges_rule:
  assumes "relax_edges g h m d es = Ok (g', h')" and "J es g h"
    and "\<And>e es g h g1 h1. J (e # es) g h \<Longrightarrow> relax g h m d e = Ok (g1, h1) \<Longrightarrow> J es g1 h1"
  shows "J [] g' h'"
  using assms(1,2)
proof (induction es arbitrary: g h)
  case Nil
  then show ?case by simp
next
  case (Cons e es)
  from Cons.prems(1) obtain g1 h1 where r: "relax g h m d e = Ok (g1, h1)"
    and rest: "relax_edges g1 h1 m d es = Ok (g', h')"
    by (auto split: res.splits)
  from assms(3) [OF Cons.prems(2) r] have "J es g1 h1" .
  with rest show ?case by (rule Cons.IH)
qed

lemma relax_edges_total:
  assumes "J es g h"
    and "\<And>e es g h g1 h1. J (e # es) g h \<Longrightarrow> relax g h m d e = Ok (g1, h1) \<Longrightarrow> J es g1 h1"
    and "\<And>e es g h. J (e # es) g h \<Longrightarrow> relax g h m d e \<noteq> Undefined"
  shows "\<exists>g' h'. relax_edges g h m d es = Ok (g', h')"
  using assms(1)
proof (induction es arbitrary: g h)
  case Nil
  then show ?case by simp
next
  case (Cons e es)
  from assms(3) [OF Cons.prems] relax_not_Err [of g h m d e]
  obtain g1 h1 where r: "relax g h m d e = Ok (g1, h1)"
    by (cases "relax g h m d e") auto
  from assms(2) [OF Cons.prems r] have "J es g1 h1" .
  from Cons.IH [OF this] r show ?case by simp
qed

lemma dijkstra_loop_rule:
  assumes ret: "dijkstra_loop g h dest = Some (Ok (g', h'))"
    and I: "I g h"
    and emp: "\<And>g. I g [] \<Longrightarrow> R g []"
    and brk: "\<And>g h m g1 h1. I g h \<Longrightarrow> heap_extract_min g h = Some (m, g1, h1) \<Longrightarrow>
                node_get_distance g1 m = UINT_MAX \<Longrightarrow> R g1 h1"
    and ext: "\<And>g h m g1 h1. I g h \<Longrightarrow> heap_extract_min g h = Some (m, g1, h1) \<Longrightarrow>
                node_get_distance g1 m \<noteq> UINT_MAX \<Longrightarrow> J m g1 (node_get_edges g1 m) g1 h1"
    and rel: "\<And>m g0 e es g h g1 h1. J m g0 (e # es) g h \<Longrightarrow>
                relax g h m (node_get_distance g0 m) e = Ok (g1, h1) \<Longrightarrow> J m g0 es g1 h1"
    and fin: "\<And>m g0 g h. J m g0 [] g h \<Longrightarrow> I g h"
    and ear: "\<And>g0 g h. J dest g0 [] g h \<Longrightarrow> R g h"
  shows "R g' h'"
  using ret I
proof (induction "length h" arbitrary: g h rule: less_induct)
  case less
  show ?case
  proof (cases "h = []")
    case True
    with less.prems(1) have "g' = g" "h' = []"
      by (subst (asm) dijkstra_loop.simps, simp add: heap_is_empty_def)+
    with emp less.prems(2) True show ?thesis by simp
  next
    case False
    then obtain m g1 h1 where ex: "heap_extract_min g h = Some (m, g1, h1)"
      by (cases "heap_extract_min g h") (auto simp: heap_extract_min_None)
    from length_heap_extract_min [OF ex] have l1: "length h1 < length h" by simp
    show ?thesis
    proof (cases "node_get_distance g1 m = UINT_MAX")
      case True
      from dijkstra_loop_break [OF ex True, of dest] less.prems(1)
      have "g' = g1" "h' = h1" by simp_all
      with brk [OF less.prems(2) ex True] show ?thesis by simp
    next
      case ne: False
      note it = dijkstra_loop_iteration [OF ex ne, of dest]
      from ext [OF less.prems(2) ex ne] have J0: "J m g1 (node_get_edges g1 m) g1 h1" .
      from less.prems(1) it obtain g2 h2
        where re: "relax_edges g1 h1 m (node_get_distance g1 m) (node_get_edges g1 m) = Ok (g2, h2)"
        by (auto split: res.splits)
      have J2: "J m g1 [] g2 h2"
        using re J0 by (rule relax_edges_rule [where J = "J m g1"]) (rule rel)
      show ?thesis
      proof (cases "m = dest")
        case True
        with less.prems(1) it re have "g' = g2" "h' = h2" by simp_all
        with ear J2 True show ?thesis by simp
      next
        case False
        with less.prems(1) it re have r2: "dijkstra_loop g2 h2 dest = Some (Ok (g', h'))" by simp
        from length_relax_edges [OF re] l1 have "length h2 < length h" by simp
        from less.hyps [OF this r2 fin [OF J2]] show ?thesis .
      qed
    qed
  qed
qed

lemma dijkstra_loop_total:
  assumes I: "I g h"
    and ext: "\<And>g h m g1 h1. I g h \<Longrightarrow> heap_extract_min g h = Some (m, g1, h1) \<Longrightarrow>
                node_get_distance g1 m \<noteq> UINT_MAX \<Longrightarrow> J m g1 (node_get_edges g1 m) g1 h1"
    and rel: "\<And>m g0 e es g h g1 h1. J m g0 (e # es) g h \<Longrightarrow>
                relax g h m (node_get_distance g0 m) e = Ok (g1, h1) \<Longrightarrow> J m g0 es g1 h1"
    and ndf: "\<And>m g0 e es g h. J m g0 (e # es) g h \<Longrightarrow>
                relax g h m (node_get_distance g0 m) e \<noteq> Undefined"
    and fin: "\<And>m g0 g h. J m g0 [] g h \<Longrightarrow> I g h"
  shows "\<exists>g' h'. dijkstra_loop g h dest = Some (Ok (g', h'))"
  using I
proof (induction "length h" arbitrary: g h rule: less_induct)
  case less
  show ?case
  proof (cases "h = []")
    case True
    then show ?thesis by (subst dijkstra_loop.simps) (simp add: heap_is_empty_def)
  next
    case False
    then obtain m g1 h1 where ex: "heap_extract_min g h = Some (m, g1, h1)"
      by (cases "heap_extract_min g h") (auto simp: heap_extract_min_None)
    from length_heap_extract_min [OF ex] have l1: "length h1 < length h" by simp
    show ?thesis
    proof (cases "node_get_distance g1 m = UINT_MAX")
      case True
      from dijkstra_loop_break [OF ex True, of dest] show ?thesis by simp
    next
      case ne: False
      note it = dijkstra_loop_iteration [OF ex ne, of dest]
      from ext [OF less.prems ex ne] have J0: "J m g1 (node_get_edges g1 m) g1 h1" .
      have "\<exists>g2 h2. relax_edges g1 h1 m (node_get_distance g1 m) (node_get_edges g1 m) = Ok (g2, h2)"
        using J0 by (rule relax_edges_total [where J = "J m g1"]) (rule rel, assumption+, rule ndf)
      then obtain g2 h2
        where re: "relax_edges g1 h1 m (node_get_distance g1 m) (node_get_edges g1 m) = Ok (g2, h2)"
        by blast
      have J2: "J m g1 [] g2 h2"
        using re J0 by (rule relax_edges_rule [where J = "J m g1"]) (rule rel)
      show ?thesis
      proof (cases "m = dest")
        case True
        with it re show ?thesis by simp
      next
        case False
        from length_relax_edges [OF re] l1 have "length h2 < length h" by simp
        from less.hyps [OF this fin [OF J2]] False it re show ?thesis by simp
      qed
    qed
  qed
qed

lemma le_UINT_MAX: "x \<le> UINT_MAX"
proof -
  have e: "UINT_MAX = - 1" by (simp add: UINT_MAX_def)
  show ?thesis unfolding e by simp
qed

lemma tree_invI:
  assumes "wf_graph G" and "same_graph G g" and "idx_inv g h" and "s < length G"
    and "distance (g ! s) = 0" and "previous (g ! s) = None"
    and "\<And>v. v < length G \<Longrightarrow> distance (g ! v) \<noteq> UINT_MAX \<Longrightarrow>
        (\<exists>ns. is_chain g (v # ns) \<and> last (v # ns) = s \<and> (\<forall>u \<in> set ns. u < length G \<and> u \<notin> set h)) \<and>
        (\<exists>es. path G s es v)"
  shows "tree_inv G s g h"
  unfolding tree_inv_def
proof (intro conjI allI impI)
  fix v assume v: "v < length G" "distance (g ! v) \<noteq> UINT_MAX"
  from assms(7) [OF v]
  show "\<exists>ns. is_chain g (v # ns) \<and> last (v # ns) = s \<and> (\<forall>u \<in> set ns. u < length G \<and> u \<notin> set h)"
    and "\<exists>es. path G s es v" by blast+
qed (fact assms)+

lemma tree_stepI:
  assumes "tree_inv G s g h" and "m < length G" and "m \<notin> set h" and "distance (g ! m) \<noteq> UINT_MAX"
    and "distance (g ! m) = node_get_distance g0 m" and "set es \<subseteq> set (edges (G ! m))"
  shows "tree_step G s m g0 es g h"
  unfolding tree_step_def by (intro conjI assms)

lemma path_snoc:
  "path G a es b \<Longrightarrow> b < length G \<Longrightarrow> e \<in> set (edges (G ! b)) \<Longrightarrow> path G a (es @ [e]) (destination e)"
  by (induction es arbitrary: a) auto

lemma is_chain_cong:
  "(\<And>x. x \<in> set xs \<Longrightarrow> previous (g' ! x) = previous (g ! x)) \<Longrightarrow> is_chain g' xs = is_chain g xs"
  by (induction g xs rule: is_chain.induct) auto

lemma same_graph_core:
  assumes "same_graph G g" and "core_of g' = core_of g"
  shows "same_graph G g'"
proof -
  from assms(1) have l: "length g = length G" by (simp add: same_graph_def)
  from core_of_length [OF assms(2)] l have "length g' = length G" by simp
  moreover have "edges (g' ! r) = edges (G ! r) \<and> node_id (g' ! r) = node_id (G ! r)" if "r < length G" for r
    using core_of_fields(3,4) [OF assms(2), of r] that l assms(1) by (simp add: same_graph_def)
  ultimately show ?thesis by (simp add: same_graph_def)
qed

lemma relax_same:
  "\<not> d + mindelay e < distance (g ! destination e) \<Longrightarrow> relax g h m d e = Ok (g, h)"
  by (simp add: relax_def Let_def node_get_distance_def)

lemma relax_changes:
  assumes inv: "idx_inv g h" and t: "destination e < length g"
    and r: "relax g h m d e = Ok (g', h')" and lt: "d + mindelay e < distance (g ! destination e)"
  shows "destination e \<in> set h" and "idx_inv g' h'" and "set h' = set h" and "length g' = length g"
    and "\<And>r. r < length g \<Longrightarrow> node_id (g' ! r) = node_id (g ! r) \<and> edges (g' ! r) = edges (g ! r)"
    and "\<And>r. r < length g \<Longrightarrow>
           distance (g' ! r) = (if r = destination e then d + mindelay e else distance (g ! r))"
    and "\<And>r. r < length g \<Longrightarrow>
           previous (g' ! r) = (if r = destination e then Some m else previous (g ! r))"
proof -
  from r lt have hd: "heap_decrease_distance h g (destination e) (d + mindelay e) (Some m) = Ok (g', h')"
    by (simp add: relax_def Let_def node_get_distance_def)
  from heap_decrease_distance_present [OF inv t hd] show m: "destination e \<in> set h" .
  from heap_decrease_distance_inv [OF inv t m, of "d + mindelay e" "Some m"] hd
  show "idx_inv g' h'" and "set h' = set h" by auto
  note f = heap_decrease_distance_fields [OF hd t]
  from f(1) show "length g' = length g" .
  from f(5) show "node_id (g' ! r) = node_id (g ! r) \<and> edges (g' ! r) = edges (g ! r)" if "r < length g" for r
    using that by simp
  from f(2,4) show "distance (g' ! r) = (if r = destination e then d + mindelay e else distance (g ! r))"
    if "r < length g" for r using that by simp
  from f(3,4) show "previous (g' ! r) = (if r = destination e then Some m else previous (g ! r))"
    if "r < length g" for r using that by simp
qed

lemma tree_inv_extract:
  assumes inv: "tree_inv G s g h" and ex: "heap_extract_min g h = Some (m, g1, h1)"
  shows "tree_inv G s g1 h1" and "m < length G" and "m \<notin> set h1" and "m \<in> set h"
    and "set h1 = set h - {m}" and "core_of g1 = core_of g"
proof -
  from inv have wf: "wf_graph G" and sg: "same_graph G g" and ii: "idx_inv g h"
    and s: "s < length G" "distance (g ! s) = 0" "previous (g ! s) = None"
    and tr: "\<And>v. v < length G \<Longrightarrow> distance (g ! v) \<noteq> UINT_MAX \<Longrightarrow>
        (\<exists>ns. is_chain g (v # ns) \<and> last (v # ns) = s \<and> (\<forall>u \<in> set ns. u < length G \<and> u \<notin> set h)) \<and>
        (\<exists>es. path G s es v)"
    by (simp_all add: tree_inv_def)
  from sg have lg: "length g = length G" by (simp add: same_graph_def)
  note e = heap_extract_min_inv [OF ii ex]
  from e(4) lg show "m < length G" by simp
  from e(2) show "m \<notin> set h1" by simp
  from e(3) show "m \<in> set h" .
  from e(2) show "set h1 = set h - {m}" .
  from e(5) show c: "core_of g1 = core_of g" .
  have f: "distance (g1 ! r) = distance (g ! r)" "previous (g1 ! r) = previous (g ! r)" if "r < length G" for r
    using core_of_fields(1,2) [OF c, of r] that lg by simp_all
  have "(\<exists>ns. is_chain g1 (v # ns) \<and> last (v # ns) = s \<and> (\<forall>u \<in> set ns. u < length G \<and> u \<notin> set h1)) \<and>
        (\<exists>es. path G s es v)" if v: "v < length G" "distance (g1 ! v) \<noteq> UINT_MAX" for v
  proof -
    from v f(1) have "distance (g ! v) \<noteq> UINT_MAX" by simp
    from tr [OF v(1) this] obtain ns es where ns: "is_chain g (v # ns)" "last (v # ns) = s"
      "\<forall>u \<in> set ns. u < length G \<and> u \<notin> set h" and es: "path G s es v" by blast
    have "is_chain g1 (v # ns) = is_chain g (v # ns)"
      using ns(3) v(1) f(2) by (intro is_chain_cong) auto
    with ns(1) have c1: "is_chain g1 (v # ns)" by simp
    have c2: "\<forall>u \<in> set ns. u < length G \<and> u \<notin> set h1" using ns(3) e(2) by simp
    show ?thesis
      by (intro conjI exI [of _ ns] exI [of _ es]) (fact c1 ns(2) c2 es)+
  qed
  then show "tree_inv G s g1 h1"
    using wf same_graph_core [OF sg c] e(1) s(1) f(1) [OF s(1)] f(2) [OF s(1)] s(2,3)
    by (intro tree_invI) simp_all
qed

lemma tree_step_relax:
  assumes J: "tree_step G s m g0 (e # es) g h"
    and r: "relax g h m (node_get_distance g0 m) e = Ok (g1, h1)"
  shows "tree_step G s m g0 es g1 h1"
proof (cases "node_get_distance g0 m + mindelay e < distance (g ! destination e)")
  case False
  from relax_same [OF False, of h m] r have e: "g1 = g" "h1 = h" by simp_all
  from J have "tree_inv G s g h" "m < length G" "m \<notin> set h" "distance (g ! m) \<noteq> UINT_MAX"
    "distance (g ! m) = node_get_distance g0 m" "set es \<subseteq> set (edges (G ! m))"
    by (auto simp: tree_step_def)
  then show ?thesis unfolding e by (rule tree_stepI)
next
  case True
  let ?t = "destination e" and ?d = "node_get_distance g0 m"
  from J have inv: "tree_inv G s g h" and m: "m < length G" "m \<notin> set h" "distance (g ! m) \<noteq> UINT_MAX"
    "distance (g ! m) = ?d" and es: "e \<in> set (edges (G ! m))" "set es \<subseteq> set (edges (G ! m))"
    by (auto simp: tree_step_def)
  from inv have wf: "wf_graph G" and sg: "same_graph G g" and ii: "idx_inv g h"
    and s: "s < length G" "distance (g ! s) = 0" "previous (g ! s) = None"
    and tr: "\<And>v. v < length G \<Longrightarrow> distance (g ! v) \<noteq> UINT_MAX \<Longrightarrow>
        (\<exists>ns. is_chain g (v # ns) \<and> last (v # ns) = s \<and> (\<forall>u \<in> set ns. u < length G \<and> u \<notin> set h)) \<and>
        (\<exists>es. path G s es v)"
    by (simp_all add: tree_inv_def)
  from sg have lg: "length g = length G" by (simp add: same_graph_def)
  from wf m(1) es(1) have tl: "?t < length G" by (auto simp: wf_graph_def)
  note c = relax_changes [OF ii tl [folded lg] r True]
  have ts: "?t \<noteq> s"
  proof
    assume "?t = s"
    with True s(2) show False by simp
  qed
  from c(1) m(2) have tm: "?t \<noteq> m" by auto
  have sg1: "same_graph G g1"
    using sg c(4,5) lg by (simp add: same_graph_def)
  have fin: "?d + mindelay e \<noteq> UINT_MAX"
  proof
    assume "?d + mindelay e = UINT_MAX"
    with True have "UINT_MAX < distance (g ! ?t)" by simp
    with le_UINT_MAX [of "distance (g ! ?t)"] show False by simp
  qed
  have pr: "previous (g1 ! x) = previous (g ! x)" if "x < length G" "x \<noteq> ?t" for x
    using c(7) [of x] that lg by simp
  have ds: "distance (g1 ! x) = distance (g ! x)" if "x < length G" "x \<noteq> ?t" for x
    using c(6) [of x] that lg by simp
  from tr [OF m(1,3)] obtain nm em where nm: "is_chain g (m # nm)" "last (m # nm) = s"
      "\<forall>u \<in> set nm. u < length G \<and> u \<notin> set h" and em: "path G s em m" by blast
  have "(\<exists>ns. is_chain g1 (v # ns) \<and> last (v # ns) = s \<and> (\<forall>u \<in> set ns. u < length G \<and> u \<notin> set h1)) \<and>
        (\<exists>es. path G s es v)" if v: "v < length G" "distance (g1 ! v) \<noteq> UINT_MAX" for v
  proof (cases "v = ?t")
    case True
    have "is_chain g1 (m # nm) = is_chain g (m # nm)"
      using nm(3) m(1,2) c(1) pr by (intro is_chain_cong) auto
    with nm(1) c(7) [of ?t] tl lg have c1: "is_chain g1 (v # m # nm)" by (simp add: True)
    have c2: "last (v # m # nm) = s" using nm(2) by simp
    have c3: "\<forall>u \<in> set (m # nm). u < length G \<and> u \<notin> set h1" using nm(3) m(1,2) c(3) by simp
    have c4: "path G s (em @ [e]) v" unfolding True using em m(1) es(1) by (rule path_snoc)
    show ?thesis
      by (intro conjI exI [of _ "m # nm"] exI [of _ "em @ [e]"]) (fact c1 c2 c3 c4)+
  next
    case False
    with v ds have "distance (g ! v) \<noteq> UINT_MAX" by simp
    from tr [OF v(1) this] obtain ns ev where ns: "is_chain g (v # ns)" "last (v # ns) = s"
      "\<forall>u \<in> set ns. u < length G \<and> u \<notin> set h" and ev: "path G s ev v" by blast
    have "is_chain g1 (v # ns) = is_chain g (v # ns)"
      using ns(3) v(1) False c(1) pr by (intro is_chain_cong) auto
    with ns(1) have c1: "is_chain g1 (v # ns)" by simp
    have c2: "\<forall>u \<in> set ns. u < length G \<and> u \<notin> set h1" using ns(3) c(3) by simp
    show ?thesis
      by (intro conjI exI [of _ ns] exI [of _ ev]) (fact c1 ns(2) c2 ev)+
  qed
  then have "tree_inv G s g1 h1"
    using wf sg1 c(2) s(1) ts pr [OF s(1)] ds [OF s(1)] s(2,3)
    by (intro tree_invI) simp_all
  moreover have "m \<notin> set h1" using m(2) c(3) by simp
  moreover have "distance (g1 ! m) = distance (g ! m)" using ds [OF m(1)] tm by simp
  ultimately show ?thesis using m es(2) by (intro tree_stepI) simp_all
qed

lemma tree_inv_loop:
  assumes "dijkstra_loop g h dest = Some (Ok (g', h'))" and "tree_inv G s g h"
  shows "tree_inv G s g' h'"
proof (rule dijkstra_loop_rule [where I = "tree_inv G s" and R = "tree_inv G s" and J = "tree_step G s",
      OF assms])
  show "tree_inv G s g []" if "tree_inv G s g []" for g using that .
  show "tree_inv G s g1 h1"
    if "tree_inv G s g h" "heap_extract_min g h = Some (m, g1, h1)" for g h m g1 h1
    using tree_inv_extract(1) [OF that] .
  show "tree_step G s m g1 (node_get_edges g1 m) g1 h1"
    if a: "tree_inv G s g h" "heap_extract_min g h = Some (m, g1, h1)"
      and b: "node_get_distance g1 m \<noteq> UINT_MAX" for g h m g1 h1
  proof -
    note e = tree_inv_extract [OF a]
    from e(1) have "same_graph G g1" by (simp add: tree_inv_def)
    with e(2) have "edges (g1 ! m) = edges (G ! m)" by (simp add: same_graph_def)
    with e b show ?thesis
      by (intro tree_stepI) (simp_all add: node_get_distance_def node_get_edges_def)
  qed
  show "tree_step G s m g0 es g1 h1"
    if "tree_step G s m g0 (e # es) g h" "relax g h m (node_get_distance g0 m) e = Ok (g1, h1)"
    for m g0 e es g h g1 h1
    using that by (rule tree_step_relax)
  show "tree_inv G s g h" if "tree_step G s m g0 [] g h" for m g0 g h
    using that by (simp add: tree_step_def)
  show "tree_inv G s g h" if "tree_step G s dest g0 [] g h" for g0 g h
    using that by (simp add: tree_step_def)
qed

subsection \<open>The start of the search\<close>

lemma graph_get_node_Some:
  assumes "graph_get_node G i = Some s"
  shows "s < length G" and "node_id (G ! s) = i"
proof -
  from assms have "\<exists>k < length [0..<length G]. node_id (G ! ([0..<length G] ! k)) = i \<and>
      s = [0..<length G] ! k \<and> (\<forall>j < k. node_id (G ! ([0..<length G] ! j)) \<noteq> i)"
    unfolding graph_get_node_def by (simp only: find_Some_iff)
  then obtain k where k: "k < length [0..<length G]" "node_id (G ! ([0..<length G] ! k)) = i"
    "s = [0..<length G] ! k" by (elim exE conjE)
  then show "s < length G" and "node_id (G ! s) = i" by simp_all
qed

lemma graph_get_node_None: "graph_get_node G i = None \<longleftrightarrow> (\<forall>k < length G. node_id (G ! k) \<noteq> i)"
  unfolding graph_get_node_def find_None_iff by auto

lemma heap_new_from_graph_facts:
  assumes "heap_new_from_graph G = Some (g0, h0)"
  shows "idx_inv g0 h0" and "core_of g0 = core_of G" and "length g0 = length G"
    and "set h0 = {..<length G}" and "graph_get_node g0 i = graph_get_node G i"
proof -
  from assms have g0: "g0 = map (\<lambda>k. (G ! k)\<lparr>heap_index := Some k\<rparr>) [0..<length G]"
    and h0: "h0 = [0..<length G]"
    by (auto simp: heap_new_from_graph_def)
  show "idx_inv g0 h0" unfolding g0 h0 by (rule idx_inv_heap_new)
  show "core_of g0 = core_of G" unfolding g0 by (rule core_of_heap_new)
  show "length g0 = length G" unfolding g0 by simp
  show "set h0 = {..<length G}" unfolding h0 by auto
  show "graph_get_node g0 i = graph_get_node G i" unfolding g0 by (rule graph_get_node_heap_new)
qed

lemma fresh_nth: "fresh G \<Longrightarrow> r < length G \<Longrightarrow> distance (G ! r) = UINT_MAX \<and> previous (G ! r) = None"
  unfolding fresh_def by (meson nth_mem)

lemma source_decrease:
  assumes i0: "idx_inv g0 h0" and s: "s < length g0" and sh: "s \<in> set h0"
  shows "\<exists>g1 h1. heap_decrease_distance h0 g0 s 0 None = Ok (g1, h1) \<and> idx_inv g1 h1 \<and>
           set h1 = set h0 \<and> length g1 = length g0 \<and>
           (\<forall>r < length g0. node_id (g1 ! r) = node_id (g0 ! r) \<and> edges (g1 ! r) = edges (g0 ! r) \<and>
              distance (g1 ! r) = (if r = s then 0 else distance (g0 ! r)) \<and>
              previous (g1 ! r) = (if r = s then None else previous (g0 ! r)))"
proof -
  from heap_decrease_distance_inv [OF i0 s sh, of 0 None]
  obtain g1 h1 where all: "heap_decrease_distance h0 g0 s 0 None = Ok (g1, h1) \<and> idx_inv g1 h1 \<and>
           set h1 = set h0 \<and> length h1 = length h0 \<and>
           core_of g1 = core_of (g0[s := (g0 ! s)\<lparr>distance := 0, previous := None\<rparr>])"
    by (elim exE)
  then have d: "heap_decrease_distance h0 g0 s 0 None = Ok (g1, h1)"
    and i1: "idx_inv g1 h1" and s1: "set h1 = set h0" by simp_all
  note f = heap_decrease_distance_fields [OF d s]
  have fl: "\<forall>r < length g0. node_id (g1 ! r) = node_id (g0 ! r) \<and> edges (g1 ! r) = edges (g0 ! r) \<and>
              distance (g1 ! r) = (if r = s then 0 else distance (g0 ! r)) \<and>
              previous (g1 ! r) = (if r = s then None else previous (g0 ! r))"
  proof (intro allI impI)
    fix r assume r: "r < length g0"
    show "node_id (g1 ! r) = node_id (g0 ! r) \<and> edges (g1 ! r) = edges (g0 ! r) \<and>
              distance (g1 ! r) = (if r = s then 0 else distance (g0 ! r)) \<and>
              previous (g1 ! r) = (if r = s then None else previous (g0 ! r))"
    proof (cases "r = s")
      case True
      with f(2,3) f(5) [OF r] show ?thesis by simp
    next
      case False
      with f(4) [OF r] f(5) [OF r] show ?thesis by simp
    qed
  qed
  show ?thesis
    by (intro exI [of _ g1] exI [of _ h1] conjI) (fact d i1 s1 f(1) fl)+
qed




subsection \<open>The order of the heap\<close>

lemma distance_set_index: "distance (g[a := (g ! a)\<lparr>heap_index := x\<rparr>] ! r) = distance (g ! r)"
  by (cases "a < length g"; cases "r = a") (simp_all add: list_update_beyond)

lemma distance_swap_slots: "distance (fst (swap_slots g h i j) ! r) = distance (g ! r)"
  by (simp add: swap_slots_def Let_def distance_set_index)

lemma key_swap_slots:
  assumes "i < length h" and "j < length h" and "k < length h"
  shows "key (fst (swap_slots g h i j)) (snd (swap_slots g h i j)) k =
           (if k = j then key g h i else if k = i then key g h j else key g h k)"
  using assms by (simp add: key_def distance_swap_slots heap_swap_slots nth_list_update)

lemma heap_ord_up_ok: "heap_ord g h \<Longrightarrow> up_ok g h 0"
  by (simp add: heap_ord_def up_ok_def)

lemma up_ok_swap:
  assumes i: "i < length h" and u: "up_ok g h i" and i0: "0 < i"
    and lt: "key g h i < key g h ((i - 1) div 2)"
  shows "up_ok (fst (swap_slots g h i ((i - 1) div 2))) (snd (swap_slots g h i ((i - 1) div 2))) ((i - 1) div 2)"
proof -
  define p where "p = (i - 1) div 2"
  define g' h' where "g' = fst (swap_slots g h i p)" and "h' = snd (swap_slots g h i p)"
  from i i0 have p: "p < length h" "p < i" by (auto simp: p_def)
  from lt have lt': "key g h i < key g h p" by (simp add: p_def)
  have l: "length h' = length h" by (simp add: h'_def heap_swap_slots)
  have k: "key g' h' k = (if k = p then key g h i else if k = i then key g h p else key g h k)"
    if "k < length h" for k
    unfolding g'_def h'_def using key_swap_slots [OF i p(1) that] .
  from u have u1: "\<And>j. j < length h \<Longrightarrow> 0 < j \<Longrightarrow> j \<noteq> i \<Longrightarrow> key g h ((j - 1) div 2) \<le> key g h j"
    and u2: "\<And>j. j < length h \<Longrightarrow> 0 < j \<Longrightarrow> (j - 1) div 2 = i \<Longrightarrow> key g h p \<le> key g h j"
    using i0 by (auto simp: up_ok_def p_def)
  have a: "key g' h' ((j - 1) div 2) \<le> key g' h' j" if j: "j < length h" "0 < j" "j \<noteq> p" for j
  proof -
    define q where "q = (j - 1) div 2"
    from j have q: "q < length h" "q < j" by (auto simp: q_def)
    show ?thesis
    proof (cases "j = i")
      case True
      then have "q = p" by (simp add: q_def p_def)
      with True k [OF i] k [OF p(1)] p lt' show ?thesis
        unfolding q_def [symmetric] by simp
    next
      case False
      with j k [OF j(1)] have kj: "key g' h' j = key g h j" by simp
      consider "q = i" | "q = p" | "q \<noteq> i" "q \<noteq> p" by blast
      then show ?thesis
      proof cases
        case 1
        with k [OF q(1)] p have "key g' h' q = key g h p" by simp
        with u2 [OF j(1,2)] 1 kj show ?thesis unfolding q_def [symmetric] by (simp add: q_def)
      next
        case 2
        with k [OF q(1)] have "key g' h' q = key g h i" by simp
        moreover from u1 [OF j(1,2) False] 2 have "key g h p \<le> key g h j" by (simp add: q_def)
        ultimately show ?thesis unfolding q_def [symmetric] using lt' kj by simp
      next
        case 3
        with k [OF q(1)] have "key g' h' q = key g h q" by simp
        with u1 [OF j(1,2) False] kj show ?thesis unfolding q_def [symmetric] by (simp add: q_def)
      qed
    qed
  qed
  have b: "key g' h' ((p - 1) div 2) \<le> key g' h' j"
    if j: "j < length h" "0 < j" "(j - 1) div 2 = p" and p0: "0 < p" for j
  proof -
    define q where "q = (p - 1) div 2"
    from p p0 have q: "q < length h" "q < p" by (auto simp: q_def)
    with p k [OF q(1)] have kq: "key g' h' q = key g h q" by simp
    from u1 [OF p(1) p0] p have qp: "key g h q \<le> key g h p" by (simp add: q_def)
    from j p have jp: "j \<noteq> p" by auto
    show ?thesis
    proof (cases "j = i")
      case True
      with k [OF i] p have "key g' h' j = key g h p" by simp
      with kq qp show ?thesis unfolding q_def [symmetric] by simp
    next
      case False
      with jp k [OF j(1)] have "key g' h' j = key g h j" by simp
      moreover from u1 [OF j(1,2) False] j(3) have "key g h p \<le> key g h j" by simp
      ultimately show ?thesis unfolding q_def [symmetric] using kq qp by simp
    qed
  qed
  from a b l show ?thesis
    unfolding up_ok_def g'_def [symmetric] h'_def [symmetric] p_def [symmetric] by simp
qed

lemma heap_ord_sift_up:
  "i < length h \<Longrightarrow> up_ok g h i \<Longrightarrow> heap_ord (fst (sift_up g h i)) (snd (sift_up g h i))"
proof (induction g h i rule: sift_up.induct)
  case (1 g h i)
  show ?case
  proof (cases "i \<noteq> 0 \<and> key g h i < key g h ((i - 1) div 2)")
    case True
    then have c: "0 < i" "key g h i < key g h ((i - 1) div 2)" by simp_all
    from 1(2) c(1) have p: "(i - 1) div 2 < length h" by auto
    have l: "length (snd (swap_slots g h i ((i - 1) div 2))) = length h"
      by (simp add: heap_swap_slots)
    have "heap_ord (fst (sift_up (fst (swap_slots g h i ((i - 1) div 2)))
                 (snd (swap_slots g h i ((i - 1) div 2))) ((i - 1) div 2)))
            (snd (sift_up (fst (swap_slots g h i ((i - 1) div 2)))
                 (snd (swap_slots g h i ((i - 1) div 2))) ((i - 1) div 2)))"
      using True p l up_ok_swap [OF 1(2,3) c] by (intro 1(1)) simp_all
    then show ?thesis using True by (subst (1 2) sift_up.simps) simp
  next
    case False
    then consider "i = 0" | "0 < i" "key g h ((i - 1) div 2) \<le> key g h i" by fastforce
    then have "heap_ord g h"
    proof cases
      case 1
      with \<open>up_ok g h i\<close> show ?thesis by (simp add: heap_ord_def up_ok_def)
    next
      case 2
      with \<open>up_ok g h i\<close> show ?thesis unfolding heap_ord_def up_ok_def by metis
    qed
    with False show ?thesis by (subst (1 2) sift_up.simps) auto
  qed
qed

lemma smallest_cases:
  "smallest g h i = i \<or> smallest g h i = 2 * i + 1 \<or> smallest g h i = 2 * i + 2"
  by (simp add: smallest_def Let_def)

lemma smallest_least:
  shows "key g h (smallest g h i) \<le> key g h i"
    and "2 * i + 1 < length h \<Longrightarrow> key g h (smallest g h i) \<le> key g h (2 * i + 1)"
    and "2 * i + 2 < length h \<Longrightarrow> key g h (smallest g h i) \<le> key g h (2 * i + 2)"
  by (auto simp: smallest_def Let_def)

lemma child_cases: "0 < j \<Longrightarrow> (j - 1) div 2 = i \<Longrightarrow> j = 2 * i + 1 \<or> j = 2 * i + 2" for i j :: nat
  by presburger

lemma down_ok_swap:
  assumes d: "down_ok g h i" and ne: "smallest g h i \<noteq> i"
  shows "down_ok (fst (swap_slots g h i (smallest g h i))) (snd (swap_slots g h i (smallest g h i)))
           (smallest g h i)"
proof -
  define s where "s = smallest g h i"
  define g' h' where "g' = fst (swap_slots g h i s)" and "h' = snd (swap_slots g h i s)"
  from smallest_range [OF ne] have r: "i < s" "s < length h" "i < length h" by (auto simp: s_def)
  have sp: "(s - 1) div 2 = i" using smallest_cases [of g h i] ne by (auto simp: s_def)
  have l: "length h' = length h" by (simp add: h'_def heap_swap_slots)
  have k: "key g' h' k = (if k = s then key g h i else if k = i then key g h s else key g h k)"
    if "k < length h" for k
    unfolding g'_def h'_def using key_swap_slots [OF r(3,2) that] .
  note sl = smallest_least [where g = g and h = h and i = i, folded s_def]
  from d have d1: "\<And>j. j < length h \<Longrightarrow> 0 < j \<Longrightarrow> (j - 1) div 2 \<noteq> i \<Longrightarrow> key g h ((j - 1) div 2) \<le> key g h j"
    and d2: "\<And>j. j < length h \<Longrightarrow> 0 < j \<Longrightarrow> (j - 1) div 2 = i \<Longrightarrow> 0 < i \<Longrightarrow> key g h ((i - 1) div 2) \<le> key g h j"
    by (auto simp: down_ok_def)
  have a: "key g' h' ((j - 1) div 2) \<le> key g' h' j"
    if j: "j < length h" "0 < j" "(j - 1) div 2 \<noteq> s" for j
  proof -
    define q where "q = (j - 1) div 2"
    from j have q: "q < length h" "q < j" "q \<noteq> s" by (auto simp: q_def)
    consider "j = s" | "j = i" | "j \<noteq> s" "j \<noteq> i" "q = i" | "j \<noteq> s" "j \<noteq> i" "q \<noteq> i" by blast
    then show ?thesis
    proof cases
      case 1
      with sp have "q = i" by (simp add: q_def)
      with 1 k [OF r(2)] k [OF r(3)] r sl(1) show ?thesis unfolding q_def [symmetric] by simp
    next
      case 2
      with j have i0: "0 < i" by simp
      from 2 r have "key g' h' j = key g h s" using k [OF j(1)] by simp
      moreover from 2 q r have "key g' h' q = key g h q" using k [OF q(1)] by simp
      moreover from d2 [OF r(2) _ sp i0] r 2 have "key g h q \<le> key g h s" by (simp add: q_def)
      ultimately show ?thesis unfolding q_def [symmetric] by simp
    next
      case 3
      with k [OF j(1)] have kj: "key g' h' j = key g h j" by simp
      from 3 r k [OF q(1)] have kq: "key g' h' q = key g h s" by simp
      from child_cases [OF j(2)] 3(3) have "j = 2 * i + 1 \<or> j = 2 * i + 2" by (simp add: q_def)
      with sl(2,3) j(1) have "key g h s \<le> key g h j" by auto
      with kj kq show ?thesis unfolding q_def [symmetric] by simp
    next
      case 4
      with k [OF j(1)] have kj: "key g' h' j = key g h j" by simp
      from 4 q k [OF q(1)] have kq: "key g' h' q = key g h q" by simp
      from d1 [OF j(1,2)] 4 have "key g h q \<le> key g h j" by (simp add: q_def)
      with kj kq show ?thesis unfolding q_def [symmetric] by simp
    qed
  qed
  have b: "key g' h' ((s - 1) div 2) \<le> key g' h' j"
    if j: "j < length h" "0 < j" "(j - 1) div 2 = s" for j
  proof -
    from j r have js: "s < j" by auto
    with r k [OF j(1)] have kj: "key g' h' j = key g h j" by simp
    from r k [OF r(3)] have ki: "key g' h' i = key g h s" by simp
    from j r have "(j - 1) div 2 \<noteq> i" by simp
    from d1 [OF j(1,2) this] j(3) have "key g h s \<le> key g h j" by simp
    with kj ki sp show ?thesis by simp
  qed
  from a b l show ?thesis
    unfolding down_ok_def g'_def [symmetric] h'_def [symmetric] s_def [symmetric] by simp
qed

lemma heap_ord_sift_down:
  "down_ok g h i \<Longrightarrow> heap_ord (fst (sift_down g h i)) (snd (sift_down g h i))"
proof (induction g h i rule: sift_down.induct)
  case (1 g h i)
  show ?case
  proof (cases "smallest g h i \<noteq> i")
    case True
    have "heap_ord (fst (sift_down (fst (swap_slots g h i (smallest g h i)))
                 (snd (swap_slots g h i (smallest g h i))) (smallest g h i)))
            (snd (sift_down (fst (swap_slots g h i (smallest g h i)))
                 (snd (swap_slots g h i (smallest g h i))) (smallest g h i)))"
      using True down_ok_swap [OF 1(2) True] by (rule 1(1))
    then show ?thesis using True by (subst (1 2) sift_down.simps) simp
  next
    case False
    then have s: "smallest g h i = i" by simp
    have "key g h ((j - 1) div 2) \<le> key g h j" if j: "j < length h" "0 < j" for j
    proof (cases "(j - 1) div 2 = i")
      case True
      from child_cases [OF j(2) True] have "j = 2 * i + 1 \<or> j = 2 * i + 2" .
      with smallest_least(2,3) [where g = g and h = h and i = i] j(1) s True show ?thesis by auto
    next
      case False
      with 1(2) j show ?thesis by (simp add: down_ok_def)
    qed
    then have "heap_ord g h" by (simp add: heap_ord_def)
    with s show ?thesis by (subst (1 2) sift_down.simps) simp
  qed
qed

lemma heap_ord_root:
  assumes "heap_ord g h"
  shows "i < length h \<Longrightarrow> key g h 0 \<le> key g h i"
proof (induction i rule: less_induct)
  case (less i)
  show ?case
  proof (cases "i = 0")
    case True
    then show ?thesis by simp
  next
    case False
    then have p: "(i - 1) div 2 < i" by auto
    with less.prems have "(i - 1) div 2 < length h" by simp
    from less.IH [OF p this] have "key g h 0 \<le> key g h ((i - 1) div 2)" .
    moreover from assms less.prems False have "key g h ((i - 1) div 2) \<le> key g h i"
      by (simp add: heap_ord_def)
    ultimately show ?thesis by simp
  qed
qed

lemma distance_detach: "distance (detach g h ! r) = distance (g ! r)"
  by (simp add: detach_def distance_set_index)

lemma heap_ord_extract:
  assumes o: "heap_ord g h" and ex: "heap_extract_min g h = Some (m, g1, h1)"
  shows "heap_ord g1 h1" and "\<And>v. v \<in> set h \<Longrightarrow> distance (g ! m) \<le> distance (g ! v)"
proof -
  from ex have ne: "h \<noteq> []" and m: "m = h ! 0"
    and sd: "sift_down (detach g h) (butlast (h[0 := last h])) 0 = (g1, h1)"
    by (simp_all add: heap_extract_min_Some)
  define h' where "h' = butlast (h[0 := last h])"
  have l: "length h' = length h - 1" by (simp add: h'_def)
  have n: "h' ! j = h ! j" if "j < length h'" "0 < j" for j
    using that by (simp add: h'_def nth_butlast)
  have "key (detach g h) h' ((j - 1) div 2) \<le> key (detach g h) h' j"
    if j: "j < length h'" "0 < j" "(j - 1) div 2 \<noteq> 0" for j
  proof -
    from j have q: "(j - 1) div 2 < length h'" "0 < (j - 1) div 2" by auto
    from j l have "j < length h" by simp
    with o j(2) have "key g h ((j - 1) div 2) \<le> key g h j" by (simp add: heap_ord_def)
    with n [OF j(1,2)] n [OF q] show ?thesis by (simp add: key_def distance_detach)
  qed
  then have "down_ok (detach g h) h' 0" by (simp add: down_ok_def)
  from heap_ord_sift_down [OF this] sd show "heap_ord g1 h1" by (simp add: h'_def)
  show "distance (g ! m) \<le> distance (g ! v)" if "v \<in> set h" for v
  proof -
    from that obtain i where i: "i < length h" "h ! i = v" by (auto simp: in_set_conv_nth)
    from heap_ord_root [OF o i(1)] i(2) m show ?thesis by (simp add: key_def)
  qed
qed

lemma heap_ord_decrease:
  assumes inv: "idx_inv g h" and o: "heap_ord g h" and n: "n < length g"
    and le: "v \<le> distance (g ! n)"
    and ok: "heap_decrease_distance h g n v p = Ok (g', h')"
  shows "heap_ord g' h'"
proof -
  define gu where "gu = g[n := (g ! n)\<lparr>distance := v, previous := p\<rparr>]"
  from ok obtain i where i: "heap_index (g ! n) = Some i" and su: "sift_up gu h i = (g', h')"
    by (auto simp: heap_decrease_distance_Ok gu_def)
  from idx_inv_slot [OF inv i n] have il: "i < length h" and hi: "h ! i = n" by simp_all
  from inv have d: "distinct h" by (simp add: idx_inv_def)
  have k: "key gu h j = (if j = i then v else key g h j)" if "j < length h" for j
  proof (cases "j = i")
    case True
    with hi n show ?thesis by (simp add: key_def gu_def)
  next
    case False
    with d that il hi have "h ! j \<noteq> n" by (auto simp: nth_eq_iff_index_eq)
    then show ?thesis using False by (simp add: key_def gu_def)
  qed
  from le hi have vi: "v \<le> key g h i" by (simp add: key_def)
  from o have o': "\<And>j. j < length h \<Longrightarrow> 0 < j \<Longrightarrow> key g h ((j - 1) div 2) \<le> key g h j"
    by (simp add: heap_ord_def)
  have a: "key gu h ((j - 1) div 2) \<le> key gu h j" if j: "j < length h" "0 < j" "j \<noteq> i" for j
  proof -
    from j have q: "(j - 1) div 2 < length h" by auto
    from o' [OF j(1,2)] vi k [OF j(1)] k [OF q] j(3) show ?thesis
      by (cases "(j - 1) div 2 = i") auto
  qed
  have b: "key gu h ((i - 1) div 2) \<le> key gu h j"
    if j: "j < length h" "0 < j" "(j - 1) div 2 = i" "0 < i" for j
  proof -
    from il j(4) have q: "(i - 1) div 2 < length h" "(i - 1) div 2 \<noteq> i" by auto
    from j have ji: "j \<noteq> i" by auto
    from o' [OF j(1,2)] o' [OF il j(4)] j(3) k [OF j(1)] k [OF q(1)] q(2) ji show ?thesis
      by auto
  qed
  from a b have "up_ok gu h i" by (simp add: up_ok_def)
  from heap_ord_sift_up [OF il this] su show ?thesis by simp
qed

lemma heap_ord_heap_new:
  assumes f: "fresh G" and hn: "heap_new_from_graph G = Some (g0, h0)"
  shows "heap_ord g0 h0"
proof -
  note hf = heap_new_from_graph_facts [OF hn]
  have "key g0 h0 i = UINT_MAX" if "i < length h0" for i
  proof -
    from that have "h0 ! i \<in> set h0" by simp
    with hf(4) have r: "h0 ! i < length G" by simp
    from core_of_fields(1) [OF hf(2) r] fresh_nth [OF f r] show ?thesis by (simp add: key_def)
  qed
  then show ?thesis unfolding heap_ord_def by auto
qed

lemma UINT_MAX_not_0: "UINT_MAX \<noteq> 0"
  by (simp add: UINT_MAX_def)

lemma dijkstra_start:
  assumes f: "fresh G" and gs: "graph_get_node G sid = Some s"
  shows "\<exists>g1 h1. dijkstra G sid dest = dijkstra_loop g1 h1 dest \<and> idx_inv g1 h1 \<and>
           set h1 = {..<length G} \<and> length h1 = length G \<and> same_graph G g1 \<and> heap_ord g1 h1 \<and>
           (\<forall>r < length G. distance (g1 ! r) = (if r = s then 0 else UINT_MAX) \<and> previous (g1 ! r) = None)"
proof -
  obtain g0 h0 where hn: "heap_new_from_graph G = Some (g0, h0)"
    by (simp add: heap_new_from_graph_def)
  note hf = heap_new_from_graph_facts [OF hn]
  from hn have lh0: "length h0 = length G" by (auto simp: heap_new_from_graph_def)
  from gs hf(5) have gs0: "graph_get_node g0 sid = Some s" by simp
  from graph_get_node_Some(1) [OF gs] have sG: "s < length G" .
  with hf(3,4) have s0: "s < length g0" and sh: "s \<in> set h0" by simp_all
  from heap_decrease_distance_inv [OF hf(1) s0 sh, of 0 None]
  obtain g1 h1 where ok: "heap_decrease_distance h0 g0 s 0 None = Ok (g1, h1)"
    and i1: "idx_inv g1 h1" and st: "set h1 = set h0" and lh: "length h1 = length h0"
    by (elim exE conjE)
  note fd = heap_decrease_distance_fields [OF ok s0]
  have eq: "dijkstra G sid dest = dijkstra_loop g1 h1 dest"
    unfolding dijkstra_def hn option.case prod.case gs0 ok res.case ..
  have o0: "heap_ord g0 h0" using f hn by (rule heap_ord_heap_new)
  have o1: "heap_ord g1 h1"
    using hf(1) o0 s0 _ ok by (rule heap_ord_decrease) simp
  have c0: "distance (g0 ! r) = UINT_MAX \<and> previous (g0 ! r) = None \<and>
            edges (g0 ! r) = edges (G ! r) \<and> node_id (g0 ! r) = node_id (G ! r)"
    if "r < length G" for r
    using core_of_fields [OF hf(2) that] fresh_nth [OF f that] by simp
  have sg: "same_graph G g1"
    unfolding same_graph_def
  proof (intro conjI allI impI)
    from fd(1) hf(3) show "length g1 = length G" by simp
  next
    fix r assume r: "r < length G"
    with hf(3) have "r < length g0" by simp
    from fd(5) [OF this] c0 [OF r] show "edges (g1 ! r) = edges (G ! r)" by simp
  next
    fix r assume r: "r < length G"
    with hf(3) have "r < length g0" by simp
    from fd(5) [OF this] c0 [OF r] show "node_id (g1 ! r) = node_id (G ! r)" by simp
  qed
  have ds: "\<forall>r < length G. distance (g1 ! r) = (if r = s then 0 else UINT_MAX) \<and> previous (g1 ! r) = None"
  proof (intro allI impI)
    fix r assume r: "r < length G"
    with hf(3) have r0: "r < length g0" by simp
    show "distance (g1 ! r) = (if r = s then 0 else UINT_MAX) \<and> previous (g1 ! r) = None"
    proof (cases "r = s")
      case True
      with fd(2,3) show ?thesis by simp
    next
      case False
      with fd(4) [OF r0] c0 [OF r] show ?thesis by simp
    qed
  qed
  from st hf(4) have st': "set h1 = {..<length G}" by simp
  from lh lh0 have lh': "length h1 = length G" by simp
  show ?thesis
    by (intro exI [of _ g1] exI [of _ h1] conjI) (fact eq i1 st' lh' sg o1 ds)+
qed

subsection \<open>The search under bounded weights\<close>

lemma dist_invI:
  assumes "tree_inv G s g h" and "bounded_weights G W" and "heap_ord g h" and "length h \<le> length G"
    and "\<And>v. v < length G \<Longrightarrow> v \<notin> set h \<Longrightarrow> distance (g ! v) \<noteq> UINT_MAX"
    and "\<And>v. v < length G \<Longrightarrow> distance (g ! v) \<noteq> UINT_MAX \<Longrightarrow>
        uint (distance (g ! v)) \<le> W * int (length G - length h)"
    and "\<And>u v. u < length G \<Longrightarrow> u \<notin> set h \<Longrightarrow> v \<in> set h \<Longrightarrow> distance (g ! u) \<le> distance (g ! v)"
    and "\<And>u e. u < length G \<Longrightarrow> u \<notin> set h \<Longrightarrow> e \<in> set (edges (G ! u)) \<Longrightarrow>
           uint (distance (g ! destination e)) \<le> uint (distance (g ! u)) + sint (mindelay e)"
    and "\<And>v. v < length G \<Longrightarrow> distance (g ! v) \<noteq> UINT_MAX \<Longrightarrow>
        \<exists>es. path G s es v \<and> weight es = uint (distance (g ! v))"
  shows "dist_inv G s W g h"
  unfolding dist_inv_def using assms by blast

lemma dist_stepI:
  assumes "tree_step G s m g0 es g h" and "bounded_weights G W" and "heap_ord g h"
    and "length h < length G"
    and "\<And>v. v < length G \<Longrightarrow> v \<notin> set h \<Longrightarrow> distance (g ! v) \<noteq> UINT_MAX"
    and "\<And>v. v < length G \<Longrightarrow> distance (g ! v) \<noteq> UINT_MAX \<Longrightarrow>
        uint (distance (g ! v)) \<le> W * int (length G - length h)"
    and "uint (distance (g ! m)) + W \<le> W * int (length G - length h)"
    and "\<And>u. u < length G \<Longrightarrow> u \<notin> set h \<Longrightarrow> distance (g ! u) \<le> distance (g ! m)"
    and "\<And>v. v \<in> set h \<Longrightarrow> distance (g ! m) \<le> distance (g ! v)"
    and "\<And>u e. u < length G \<Longrightarrow> u \<notin> set h \<Longrightarrow> e \<in> set (edges (G ! u)) \<Longrightarrow>
           u = m \<and> e \<in> set es \<or>
           uint (distance (g ! destination e)) \<le> uint (distance (g ! u)) + sint (mindelay e)"
    and "\<And>v. v < length G \<Longrightarrow> distance (g ! v) \<noteq> UINT_MAX \<Longrightarrow>
        \<exists>es. path G s es v \<and> weight es = uint (distance (g ! v))"
  shows "dist_step G s W m g0 es g h"
  unfolding dist_step_def using assms by blast

lemma tree_inv_start:
  assumes wf: "wf_graph G" and s: "s < length G" and ii: "idx_inv g h" and sg: "same_graph G g"
    and ds: "\<forall>r < length G. distance (g ! r) = (if r = s then 0 else UINT_MAX) \<and> previous (g ! r) = None"
  shows "tree_inv G s g h"
proof (rule tree_invI [OF wf sg ii s])
  from ds s show "distance (g ! s) = 0" by simp
  from ds s show "previous (g ! s) = None" by simp
  fix v assume v: "v < length G" "distance (g ! v) \<noteq> UINT_MAX"
  with ds have vs: "v = s" by (cases "v = s") simp_all
  from ds s have "is_chain g [s]" by simp
  moreover have "path G s [] s" by simp
  ultimately show "(\<exists>ns. is_chain g (v # ns) \<and> last (v # ns) = s \<and> (\<forall>u \<in> set ns. u < length G \<and> u \<notin> set h)) \<and>
        (\<exists>es. path G s es v)"
    unfolding vs by (intro conjI exI [of _ "[]"]) simp_all
qed

lemma dist_inv_start:
  assumes wf: "wf_graph G" and s: "s < length G" and ii: "idx_inv g h" and sg: "same_graph G g"
    and ds: "\<forall>r < length G. distance (g ! r) = (if r = s then 0 else UINT_MAX) \<and> previous (g ! r) = None"
    and bw: "bounded_weights G W" and o: "heap_ord g h"
    and st: "set h = {..<length G}" and lh: "length h = length G"
  shows "dist_inv G s W g h"
proof (rule dist_invI [OF tree_inv_start [OF wf s ii sg ds] bw o])
  from lh show "length h \<le> length G" by simp
next
  fix v assume "v < length G" "v \<notin> set h"
  with st show "distance (g ! v) \<noteq> UINT_MAX" by simp
next
  fix v assume v: "v < length G" "distance (g ! v) \<noteq> UINT_MAX"
  with ds have vs: "v = s" by (cases "v = s") simp_all
  with ds s lh show "uint (distance (g ! v)) \<le> W * int (length G - length h)" by simp
next
  fix u v assume "u < length G" "u \<notin> set h"
  with st show "distance (g ! u) \<le> distance (g ! v)" by simp
next
  fix u e assume "u < length G" "u \<notin> set h"
  with st show "uint (distance (g ! destination e)) \<le> uint (distance (g ! u)) + sint (mindelay e)"
    by simp
next
  fix v assume v: "v < length G" "distance (g ! v) \<noteq> UINT_MAX"
  with ds have vs: "v = s" by (cases "v = s") simp_all
  from ds s have "uint (distance (g ! s)) = 0" by simp
  then have "path G s [] s \<and> weight [] = uint (distance (g ! s))" by (simp add: weight_def)
  then show "\<exists>es. path G s es v \<and> weight es = uint (distance (g ! v))" unfolding vs ..
qed

lemma dist_inv_extract:
  assumes inv: "dist_inv G s W g h" and ex: "heap_extract_min g h = Some (m, g1, h1)"
    and fin: "node_get_distance g1 m \<noteq> UINT_MAX"
  shows "dist_step G s W m g1 (node_get_edges g1 m) g1 h1"
proof -
  from inv have ti: "tree_inv G s g h" and bw: "bounded_weights G W" and o: "heap_ord g h"
    and lh: "length h \<le> length G"
    and b8: "\<And>v. v < length G \<Longrightarrow> v \<notin> set h \<Longrightarrow> distance (g ! v) \<noteq> UINT_MAX"
    and b3: "\<And>v. v < length G \<Longrightarrow> distance (g ! v) \<noteq> UINT_MAX \<Longrightarrow>
        uint (distance (g ! v)) \<le> W * int (length G - length h)"
    and b4: "\<And>u v. u < length G \<Longrightarrow> u \<notin> set h \<Longrightarrow> v \<in> set h \<Longrightarrow> distance (g ! u) \<le> distance (g ! v)"
    and b5: "\<And>u e. u < length G \<Longrightarrow> u \<notin> set h \<Longrightarrow> e \<in> set (edges (G ! u)) \<Longrightarrow>
           uint (distance (g ! destination e)) \<le> uint (distance (g ! u)) + sint (mindelay e)"
    and b6: "\<And>v. v < length G \<Longrightarrow> distance (g ! v) \<noteq> UINT_MAX \<Longrightarrow>
        \<exists>es. path G s es v \<and> weight es = uint (distance (g ! v))"
    unfolding dist_inv_def by blast+
  note te = tree_inv_extract [OF ti ex]
  from ti have wf: "wf_graph G" and sg: "same_graph G g" by (simp_all add: tree_inv_def)
  from sg have lg: "length g = length G" by (simp add: same_graph_def)
  have d: "distance (g1 ! r) = distance (g ! r)" if "r < length G" for r
    using core_of_fields(1) [OF te(6), of r] that lg by simp
  from te(1) have "same_graph G g1" by (simp add: tree_inv_def)
  with te(2) have ed: "edges (g1 ! m) = edges (G ! m)" by (simp add: same_graph_def)
  from fin have fm: "distance (g1 ! m) \<noteq> UINT_MAX" by (simp add: node_get_distance_def)
  have ts: "tree_step G s m g1 (node_get_edges g1 m) g1 h1"
    using te(1,2,3) fm ed by (intro tree_stepI) (simp_all add: node_get_distance_def node_get_edges_def)
  from length_heap_extract_min [OF ex] have l1: "Suc (length h1) = length h" .
  with lh have l2: "length h1 < length G" by simp
  from l1 lh have l3: "int (length G - length h1) = int (length G - length h) + 1" by simp
  from bw have w0: "0 \<le> W" by (simp add: bounded_weights_def)
  note ho = heap_ord_extract [OF o ex]
  have in1: "v \<notin> set h1 \<longleftrightarrow> v = m \<or> v \<notin> set h" for v using te(5) by auto
  show ?thesis
  proof (rule dist_stepI [OF ts bw ho(1) l2])
    fix v assume v: "v < length G" "v \<notin> set h1"
    show "distance (g1 ! v) \<noteq> UINT_MAX"
    proof (cases "v = m")
      case True
      with fm show ?thesis by simp
    next
      case False
      with v in1 b8 [of v] d [OF v(1)] show ?thesis by simp
    qed
  next
    fix v assume v: "v < length G" "distance (g1 ! v) \<noteq> UINT_MAX"
    with d have "distance (g ! v) \<noteq> UINT_MAX" by simp
    from b3 [OF v(1) this] have "uint (distance (g ! v)) \<le> W * int (length G - length h)" .
    also have "\<dots> \<le> W * int (length G - length h1)" using w0 l3 by (simp add: distrib_left)
    finally show "uint (distance (g1 ! v)) \<le> W * int (length G - length h1)" using d [OF v(1)] by simp
  next
    from fm d [OF te(2)] have "distance (g ! m) \<noteq> UINT_MAX" by simp
    from b3 [OF te(2) this] have "uint (distance (g ! m)) + W \<le> W * int (length G - length h) + W" by simp
    also have "\<dots> = W * int (length G - length h1)" using l3 by (simp add: distrib_left)
    finally show "uint (distance (g1 ! m)) + W \<le> W * int (length G - length h1)"
      using d [OF te(2)] by simp
  next
    fix u assume u: "u < length G" "u \<notin> set h1"
    show "distance (g1 ! u) \<le> distance (g1 ! m)"
    proof (cases "u = m")
      case True
      then show ?thesis by simp
    next
      case False
      with u in1 have "u \<notin> set h" by simp
      from b4 [OF u(1) this te(4)] d [OF u(1)] d [OF te(2)] show ?thesis by simp
    qed
  next
    fix v assume v: "v \<in> set h1"
    with te(5) have vh: "v \<in> set h" by simp
    from ti have "idx_inv g h" by (simp add: tree_inv_def)
    from idx_inv_bound [OF this vh] lg have vl: "v < length G" by simp
    from ho(2) [OF vh] d [OF vl] d [OF te(2)] show "distance (g1 ! m) \<le> distance (g1 ! v)" by simp
  next
    fix u e assume u: "u < length G" "u \<notin> set h1" "e \<in> set (edges (G ! u))"
    show "u = m \<and> e \<in> set (node_get_edges g1 m) \<or>
           uint (distance (g1 ! destination e)) \<le> uint (distance (g1 ! u)) + sint (mindelay e)"
    proof (cases "u = m")
      case True
      with u(3) ed show ?thesis by (simp add: node_get_edges_def)
    next
      case False
      with u in1 have uh: "u \<notin> set h" by simp
      from wf u(1,3) have tl: "destination e < length G" by (auto simp: wf_graph_def)
      from b5 [OF u(1) uh u(3)] d [OF u(1)] d [OF tl] show ?thesis by simp
    qed
  next
    fix v assume v: "v < length G" "distance (g1 ! v) \<noteq> UINT_MAX"
    with d have "distance (g ! v) \<noteq> UINT_MAX" by simp
    from b6 [OF v(1) this] d [OF v(1)]
    show "\<exists>es. path G s es v \<and> weight es = uint (distance (g1 ! v))" by simp
  qed
qed

lemma uint_add_nowrap:
  fixes d w :: "32 word"
  assumes "0 \<le> sint w" and "uint d + sint w < 4294967296"
  shows "uint (d + w) = uint d + sint w"
proof -
  have "0 \<le> uint d + sint w" using assms(1) by simp
  then have "(uint d + sint w) mod 2 ^ 32 = uint d + sint w"
    using assms(2) by (intro mod_pos_pos_trivial) simp_all
  with uint_add_sint [of d w] show ?thesis by simp
qed

lemma weight_snoc: "weight (es @ [e]) = weight es + sint (mindelay e)"
  by (simp add: weight_def)

lemma dist_step_candidate:
  assumes J: "dist_step G s W m g0 (e # es) g h"
  shows "uint (node_get_distance g0 m + mindelay e) = uint (distance (g ! m)) + sint (mindelay e)"
    and "0 \<le> sint (mindelay e)"
    and "uint (distance (g ! m)) + sint (mindelay e) \<le> W * int (length G - length h)"
    and "destination e < length G" and "distance (g ! m) = node_get_distance g0 m"
proof -
  from J have ts: "tree_step G s m g0 (e # es) g h" and bw: "bounded_weights G W"
    and b3m: "uint (distance (g ! m)) + W \<le> W * int (length G - length h)"
    unfolding dist_step_def by blast+
  from ts have m: "m < length G" and dm: "distance (g ! m) = node_get_distance g0 m"
    and e: "e \<in> set (edges (G ! m))" and ti: "tree_inv G s g h"
    by (auto simp: tree_step_def)
  from ti have wf: "wf_graph G" by (simp add: tree_inv_def)
  from wf m e show "destination e < length G" by (auto simp: wf_graph_def)
  from m have "G ! m \<in> set G" by simp
  with bw e have w: "0 \<le> sint (mindelay e)" "sint (mindelay e) \<le> W"
    and w0: "0 \<le> W" and nw: "int (length G) * W < 4294967295"
    unfolding bounded_weights_def by blast+
  from w(1) show "0 \<le> sint (mindelay e)" .
  from b3m w(2) show le: "uint (distance (g ! m)) + sint (mindelay e) \<le> W * int (length G - length h)"
    by simp
  have "W * int (length G - length h) \<le> W * int (length G)"
    using w0 by (intro mult_left_mono) simp_all
  with le nw have "uint (distance (g ! m)) + sint (mindelay e) < 4294967296"
    by (simp add: mult.commute)
  from uint_add_nowrap [OF w(1) this] dm
  show "uint (node_get_distance g0 m + mindelay e) = uint (distance (g ! m)) + sint (mindelay e)"
    by simp
  show "distance (g ! m) = node_get_distance g0 m" by (fact dm)
qed

lemma dist_step_defined:
  assumes J: "dist_step G s W m g0 (e # es) g h"
  shows "relax g h m (node_get_distance g0 m) e \<noteq> Undefined"
proof (cases "node_get_distance g0 m + mindelay e < distance (g ! destination e)")
  case False
  from relax_same [OF False] show ?thesis by simp
next
  case True
  note c = dist_step_candidate [OF J]
  from J have ts: "tree_step G s m g0 (e # es) g h"
    and b4: "\<And>u. u < length G \<Longrightarrow> u \<notin> set h \<Longrightarrow> distance (g ! u) \<le> distance (g ! m)"
    unfolding dist_step_def by blast+
  from ts have ti: "tree_inv G s g h" by (simp add: tree_step_def)
  then have ii: "idx_inv g h" and sg: "same_graph G g" by (simp_all add: tree_inv_def)
  from sg have lg: "length g = length G" by (simp add: same_graph_def)
  have th: "destination e \<in> set h"
  proof (rule ccontr)
    assume "destination e \<notin> set h"
    from b4 [OF c(4) this] have "uint (distance (g ! destination e)) \<le> uint (distance (g ! m))"
      by (simp add: word_le_def)
    also have "\<dots> \<le> uint (node_get_distance g0 m + mindelay e)" using c(1,2) by simp
    finally have "distance (g ! destination e) \<le> node_get_distance g0 m + mindelay e"
      by (simp add: word_le_def)
    with True show False by simp
  qed
  from heap_decrease_distance_inv [OF ii c(4) [folded lg] th,
      of "node_get_distance g0 m + mindelay e" "Some m"] True
  show ?thesis by (auto simp: relax_def Let_def node_get_distance_def)
qed

lemma dist_step_done:
  assumes J: "dist_step G s W m g0 [] g h"
  shows "dist_inv G s W g h"
proof -
  from J have ts: "tree_step G s m g0 [] g h" and bw: "bounded_weights G W" and o: "heap_ord g h"
    and lh: "length h < length G"
    and b8: "\<And>v. v < length G \<Longrightarrow> v \<notin> set h \<Longrightarrow> distance (g ! v) \<noteq> UINT_MAX"
    and b3: "\<And>v. v < length G \<Longrightarrow> distance (g ! v) \<noteq> UINT_MAX \<Longrightarrow>
        uint (distance (g ! v)) \<le> W * int (length G - length h)"
    and b4a: "\<And>u. u < length G \<Longrightarrow> u \<notin> set h \<Longrightarrow> distance (g ! u) \<le> distance (g ! m)"
    and b4b: "\<And>v. v \<in> set h \<Longrightarrow> distance (g ! m) \<le> distance (g ! v)"
    and b5: "\<And>u e. u < length G \<Longrightarrow> u \<notin> set h \<Longrightarrow> e \<in> set (edges (G ! u)) \<Longrightarrow>
           u = m \<and> e \<in> set [] \<or>
           uint (distance (g ! destination e)) \<le> uint (distance (g ! u)) + sint (mindelay e)"
    and b6: "\<And>v. v < length G \<Longrightarrow> distance (g ! v) \<noteq> UINT_MAX \<Longrightarrow>
        \<exists>es. path G s es v \<and> weight es = uint (distance (g ! v))"
    unfolding dist_step_def by blast+
  from ts have ti: "tree_inv G s g h" by (simp add: tree_step_def)
  show ?thesis
  proof (rule dist_invI [OF ti bw o])
    from lh show "length h \<le> length G" by simp
    show "distance (g ! v) \<noteq> UINT_MAX" if "v < length G" "v \<notin> set h" for v
      using that by (rule b8)
    show "uint (distance (g ! v)) \<le> W * int (length G - length h)"
      if "v < length G" "distance (g ! v) \<noteq> UINT_MAX" for v
      using that by (rule b3)
    show "distance (g ! u) \<le> distance (g ! v)" if "u < length G" "u \<notin> set h" "v \<in> set h" for u v
      using b4a [OF that(1,2)] b4b [OF that(3)] by simp
    show "uint (distance (g ! destination e)) \<le> uint (distance (g ! u)) + sint (mindelay e)"
      if "u < length G" "u \<notin> set h" "e \<in> set (edges (G ! u))" for u e
      using b5 [OF that] by simp
    show "\<exists>es. path G s es v \<and> weight es = uint (distance (g ! v))"
      if "v < length G" "distance (g ! v) \<noteq> UINT_MAX" for v
      using that by (rule b6)
  qed
qed

lemma dist_step_relax:
  assumes J: "dist_step G s W m g0 (e # es) g h"
    and r: "relax g h m (node_get_distance g0 m) e = Ok (g1, h1)"
  shows "dist_step G s W m g0 es g1 h1"
proof -
  let ?t = "destination e" and ?c = "node_get_distance g0 m + mindelay e"
  from J have ts: "tree_step G s m g0 (e # es) g h" and bw: "bounded_weights G W" and o: "heap_ord g h"
    and lh: "length h < length G"
    and b8: "\<And>v. v < length G \<Longrightarrow> v \<notin> set h \<Longrightarrow> distance (g ! v) \<noteq> UINT_MAX"
    and b3: "\<And>v. v < length G \<Longrightarrow> distance (g ! v) \<noteq> UINT_MAX \<Longrightarrow>
        uint (distance (g ! v)) \<le> W * int (length G - length h)"
    and b3m: "uint (distance (g ! m)) + W \<le> W * int (length G - length h)"
    and b4a: "\<And>u. u < length G \<Longrightarrow> u \<notin> set h \<Longrightarrow> distance (g ! u) \<le> distance (g ! m)"
    and b4b: "\<And>v. v \<in> set h \<Longrightarrow> distance (g ! m) \<le> distance (g ! v)"
    and b5: "\<And>u e'. u < length G \<Longrightarrow> u \<notin> set h \<Longrightarrow> e' \<in> set (edges (G ! u)) \<Longrightarrow>
           u = m \<and> e' \<in> set (e # es) \<or>
           uint (distance (g ! destination e')) \<le> uint (distance (g ! u)) + sint (mindelay e')"
    and b6: "\<And>v. v < length G \<Longrightarrow> distance (g ! v) \<noteq> UINT_MAX \<Longrightarrow>
        \<exists>es. path G s es v \<and> weight es = uint (distance (g ! v))"
    unfolding dist_step_def by blast+
  note c = dist_step_candidate [OF J]
  note ts1 = tree_step_relax [OF ts r]
  from ts have ti: "tree_inv G s g h" and m: "m < length G" "m \<notin> set h"
    and fm: "distance (g ! m) \<noteq> UINT_MAX" and em: "e \<in> set (edges (G ! m))"
    by (auto simp: tree_step_def)
  from ti have ii: "idx_inv g h" and sg: "same_graph G g" and wf: "wf_graph G"
    by (simp_all add: tree_inv_def)
  from sg have lg: "length g = length G" by (simp add: same_graph_def)
  show ?thesis
  proof (cases "?c < distance (g ! ?t)")
    case False
    from relax_same [OF False, of h m] r have eq: "g1 = g" "h1 = h" by simp_all
    from False have le: "uint (distance (g ! ?t)) \<le> uint (distance (g ! m)) + sint (mindelay e)"
      using c(1) by (simp add: word_less_def)
    show ?thesis
    proof (rule dist_stepI [OF ts1 bw])
      from o show "heap_ord g1 h1" by (simp add: eq)
      from lh show "length h1 < length G" by (simp add: eq)
      show "distance (g1 ! v) \<noteq> UINT_MAX" if "v < length G" "v \<notin> set h1" for v
        using b8 [of v] that by (simp add: eq)
      show "uint (distance (g1 ! v)) \<le> W * int (length G - length h1)"
        if "v < length G" "distance (g1 ! v) \<noteq> UINT_MAX" for v
        using b3 [of v] that by (simp add: eq)
      from b3m show "uint (distance (g1 ! m)) + W \<le> W * int (length G - length h1)" by (simp add: eq)
      show "distance (g1 ! u) \<le> distance (g1 ! m)" if "u < length G" "u \<notin> set h1" for u
        using b4a [of u] that by (simp add: eq)
      show "distance (g1 ! m) \<le> distance (g1 ! v)" if "v \<in> set h1" for v
        using b4b [of v] that by (simp add: eq)
      show "u = m \<and> e' \<in> set es \<or>
           uint (distance (g1 ! destination e')) \<le> uint (distance (g1 ! u)) + sint (mindelay e')"
        if "u < length G" "u \<notin> set h1" "e' \<in> set (edges (G ! u))" for u e'
      proof (cases "u = m \<and> e' = e")
        case True
        with le show ?thesis by (simp add: eq)
      next
        case False
        with b5 [of u e'] that show ?thesis by (auto simp: eq)
      qed
      show "\<exists>es. path G s es v \<and> weight es = uint (distance (g1 ! v))"
        if "v < length G" "distance (g1 ! v) \<noteq> UINT_MAX" for v
        using b6 [of v] that by (simp add: eq)
    qed
  next
    case True
    note rc = relax_changes [OF ii c(4) [folded lg] r True]
    from rc(1) m(2) have tm: "?t \<noteq> m" by auto
    from r True have ok: "heap_decrease_distance h g ?t ?c (Some m) = Ok (g1, h1)"
      by (simp add: relax_def Let_def node_get_distance_def)
    from True have "?c \<le> distance (g ! ?t)" by simp
    from heap_ord_decrease [OF ii o c(4) [folded lg] this ok] have o1: "heap_ord g1 h1" .
    from length_relax [OF r] have l1: "length h1 = length h" .
    have d: "distance (g1 ! x) = (if x = ?t then ?c else distance (g ! x))" if "x < length G" for x
      using rc(6) [of x] that lg by simp
    have dn: "distance (g1 ! x) = distance (g ! x)" if "x < length G" "x \<notin> set h" for x
      using d [OF that(1)] that(2) rc(1) by auto
    have dl: "uint (distance (g1 ! x)) \<le> uint (distance (g ! x))" if "x < length G" for x
      using d [OF that] True by (auto simp: word_less_def)
    show ?thesis
    proof (rule dist_stepI [OF ts1 bw o1])
      from lh l1 show "length h1 < length G" by simp
      show "distance (g1 ! v) \<noteq> UINT_MAX" if "v < length G" "v \<notin> set h1" for v
        using b8 [of v] that dn [of v] rc(3) by simp
      show "uint (distance (g1 ! v)) \<le> W * int (length G - length h1)"
        if v: "v < length G" "distance (g1 ! v) \<noteq> UINT_MAX" for v
      proof (cases "v = ?t")
        case True
        with d [OF v(1)] c(1,3) l1 show ?thesis by simp
      next
        case False
        with d [OF v(1)] v b3 [of v] l1 show ?thesis by simp
      qed
      from b3m dn [OF m] l1 show "uint (distance (g1 ! m)) + W \<le> W * int (length G - length h1)"
        by simp
      show "distance (g1 ! u) \<le> distance (g1 ! m)" if "u < length G" "u \<notin> set h1" for u
        using b4a [of u] that dn [of u] dn [OF m] rc(3) by simp
      show "distance (g1 ! m) \<le> distance (g1 ! v)" if v: "v \<in> set h1" for v
      proof -
        from v rc(3) have vh: "v \<in> set h" by simp
        from idx_inv_bound [OF ii vh] lg have vl: "v < length G" by simp
        show ?thesis
        proof (cases "v = ?t")
          case True
          have "uint (distance (g ! m)) \<le> uint ?c" using c(1,2) by simp
          with d [OF vl] True dn [OF m] show ?thesis by (simp add: word_le_def)
        next
          case False
          with d [OF vl] b4b [OF vh] dn [OF m] show ?thesis by simp
        qed
      qed
      show "u = m \<and> e' \<in> set es \<or>
           uint (distance (g1 ! destination e')) \<le> uint (distance (g1 ! u)) + sint (mindelay e')"
        if u: "u < length G" "u \<notin> set h1" "e' \<in> set (edges (G ! u))" for u e'
      proof -
        from u(2) rc(3) have uh: "u \<notin> set h" by simp
        from wf u(1,3) have tl: "destination e' < length G" by (auto simp: wf_graph_def)
        consider "u = m" "e' = e" | "u = m" "e' \<in> set es"
          | "uint (distance (g ! destination e')) \<le> uint (distance (g ! u)) + sint (mindelay e')"
          using b5 [OF u(1) uh u(3)] by auto
        then show ?thesis
        proof cases
          case 1
          with d [OF c(4)] dn [OF m] c(1) show ?thesis by simp
        next
          case 2
          then show ?thesis by simp
        next
          case 3
          with dl [OF tl] dn [OF u(1) uh] show ?thesis by simp
        qed
      qed
      show "\<exists>es. path G s es v \<and> weight es = uint (distance (g1 ! v))"
        if v: "v < length G" "distance (g1 ! v) \<noteq> UINT_MAX" for v
      proof (cases "v = ?t")
        case True
        from b6 [OF m(1) fm] obtain pm where pm: "path G s pm m" "weight pm = uint (distance (g ! m))"
          by blast
        from path_snoc [OF pm(1) m(1) em] have "path G s (pm @ [e]) v" by (simp add: True)
        moreover have "weight (pm @ [e]) = uint (distance (g1 ! v))"
          using d [OF v(1)] True c(1) pm(2) by (simp add: weight_snoc)
        ultimately show ?thesis by blast
      next
        case False
        with d [OF v(1)] v b6 [of v] show ?thesis by simp
      qed
    qed
  qed
qed

lemma path_weight_nonneg:
  assumes "bounded_weights G W"
  shows "path G a es b \<Longrightarrow> 0 \<le> weight es"
proof (induction es arbitrary: a)
  case Nil
  show ?case by (simp add: weight_def)
next
  case (Cons e es)
  then have a: "a < length G" "e \<in> set (edges (G ! a))" and p: "path G (destination e) es b" by simp_all
  from a(1) have "G ! a \<in> set G" by simp
  with assms a(2) have "0 \<le> sint (mindelay e)" unfolding bounded_weights_def by blast
  with Cons.IH [OF p] show ?case by (simp add: weight_def)
qed

lemma weight_Cons: "weight (e # es) = sint (mindelay e) + weight es"
  by (simp add: weight_def)

lemma path_lower_bound:
  assumes inv: "dist_inv G s W g h"
  shows "path G a es b \<Longrightarrow> a < length G \<Longrightarrow> a \<notin> set h \<Longrightarrow>
         (b < length G \<and> b \<notin> set h \<and> uint (distance (g ! b)) \<le> uint (distance (g ! a)) + weight es) \<or>
         (\<exists>y \<in> set h. uint (distance (g ! y)) \<le> uint (distance (g ! a)) + weight es)"
proof (induction es arbitrary: a)
  case Nil
  then show ?case by (simp add: weight_def)
next
  case (Cons e es)
  from inv have ti: "tree_inv G s g h" and bw: "bounded_weights G W"
    and b5: "\<And>u e. u < length G \<Longrightarrow> u \<notin> set h \<Longrightarrow> e \<in> set (edges (G ! u)) \<Longrightarrow>
           uint (distance (g ! destination e)) \<le> uint (distance (g ! u)) + sint (mindelay e)"
    unfolding dist_inv_def by blast+
  from ti have wf: "wf_graph G" by (simp add: tree_inv_def)
  let ?t = "destination e"
  from Cons.prems have a: "a < length G" "a \<notin> set h" "e \<in> set (edges (G ! a))"
    and p: "path G ?t es b" by simp_all
  from wf a(1,3) have tl: "?t < length G" by (auto simp: wf_graph_def)
  note r = b5 [OF a]
  note n = path_weight_nonneg [OF bw p]
  show ?case
  proof (cases "?t \<in> set h")
    case True
    from r n have "uint (distance (g ! ?t)) \<le> uint (distance (g ! a)) + weight (e # es)"
      by (simp add: weight_Cons)
    with True show ?thesis by blast
  next
    case False
    from Cons.IH [OF p tl False] show ?thesis
    proof
      assume "b < length G \<and> b \<notin> set h \<and>
        uint (distance (g ! b)) \<le> uint (distance (g ! ?t)) + weight es"
      with r show ?thesis by (simp add: weight_Cons)
    next
      assume "\<exists>y \<in> set h. uint (distance (g ! y)) \<le> uint (distance (g ! ?t)) + weight es"
      then obtain y where y: "y \<in> set h" "uint (distance (g ! y)) \<le> uint (distance (g ! ?t)) + weight es"
        by blast
      from y(2) r have "uint (distance (g ! y)) \<le> uint (distance (g ! a)) + weight (e # es)"
        by (simp add: weight_Cons)
      with y(1) show ?thesis by blast
    qed
  qed
qed

lemma dist_inv_optimal:
  assumes inv: "dist_inv G s W g h" and v: "v < length G" "v \<notin> set h" and p: "path G s es v"
  shows "uint (distance (g ! v)) \<le> weight es"
proof -
  from inv have ti: "tree_inv G s g h" and bw: "bounded_weights G W"
    and b4: "\<And>u v. u < length G \<Longrightarrow> u \<notin> set h \<Longrightarrow> v \<in> set h \<Longrightarrow> distance (g ! u) \<le> distance (g ! v)"
    unfolding dist_inv_def by blast+
  from ti have s: "s < length G" "distance (g ! s) = 0" by (simp_all add: tree_inv_def)
  have "(v < length G \<and> v \<notin> set h \<and> uint (distance (g ! v)) \<le> weight es) \<or>
        (\<exists>y \<in> set h. uint (distance (g ! y)) \<le> weight es)"
  proof (cases "s \<in> set h")
    case True
    from path_weight_nonneg [OF bw p] s(2) have "uint (distance (g ! s)) \<le> weight es" by simp
    with True show ?thesis by blast
  next
    case False
    from path_lower_bound [OF inv p s(1) False] s(2) show ?thesis by simp
  qed
  then show ?thesis
  proof
    assume "v < length G \<and> v \<notin> set h \<and> uint (distance (g ! v)) \<le> weight es"
    then show ?thesis by simp
  next
    assume "\<exists>y \<in> set h. uint (distance (g ! y)) \<le> weight es"
    then obtain y where y: "y \<in> set h" "uint (distance (g ! y)) \<le> weight es" by blast
    from b4 [OF v y(1)] have "uint (distance (g ! v)) \<le> uint (distance (g ! y))"
      by (simp add: word_le_def)
    with y(2) show ?thesis by simp
  qed
qed

lemma dist_inv_closed:
  assumes inv: "dist_inv G s W g h" and ne: "h \<noteq> []"
    and inf: "\<And>v. v \<in> set h \<Longrightarrow> distance (g ! v) = UINT_MAX"
  shows "path G a es b \<Longrightarrow> a < length G \<Longrightarrow> a \<notin> set h \<Longrightarrow> b < length G \<and> b \<notin> set h"
proof (induction es arbitrary: a)
  case Nil
  then show ?case by simp
next
  case (Cons e es)
  from inv have ti: "tree_inv G s g h" and bw: "bounded_weights G W" and lh: "length h \<le> length G"
    and b8: "\<And>v. v < length G \<Longrightarrow> v \<notin> set h \<Longrightarrow> distance (g ! v) \<noteq> UINT_MAX"
    and b3: "\<And>v. v < length G \<Longrightarrow> distance (g ! v) \<noteq> UINT_MAX \<Longrightarrow>
        uint (distance (g ! v)) \<le> W * int (length G - length h)"
    and b5: "\<And>u e. u < length G \<Longrightarrow> u \<notin> set h \<Longrightarrow> e \<in> set (edges (G ! u)) \<Longrightarrow>
           uint (distance (g ! destination e)) \<le> uint (distance (g ! u)) + sint (mindelay e)"
    unfolding dist_inv_def by blast+
  from ti have wf: "wf_graph G" by (simp add: tree_inv_def)
  let ?t = "destination e"
  from Cons.prems have a: "a < length G" "a \<notin> set h" "e \<in> set (edges (G ! a))"
    and p: "path G ?t es b" by simp_all
  from wf a(1,3) have tl: "?t < length G" by (auto simp: wf_graph_def)
  from a(1) have "G ! a \<in> set G" by simp
  with bw a(3) have w: "sint (mindelay e) \<le> W" and w0: "0 \<le> W"
    and nw: "int (length G) * W < 4294967295"
    unfolding bounded_weights_def by blast+
  from ne have "0 < length h" by simp
  with lh have "length G - length h + 1 \<le> length G" by arith
  then have "int (length G - length h) + 1 \<le> int (length G)" by simp
  with w0 have "W * (int (length G - length h) + 1) \<le> W * int (length G)"
    by (intro mult_left_mono) simp_all
  with nw have bd: "W * int (length G - length h) + W < 4294967295"
    by (simp add: distrib_left mult.commute)
  from b5 [OF a] b3 [OF a(1) b8 [OF a(1,2)]] w bd
  have "uint (distance (g ! ?t)) < 4294967295" by simp
  then have "distance (g ! ?t) \<noteq> UINT_MAX" by (auto simp: UINT_MAX_def)
  with inf have "?t \<notin> set h" by blast
  from Cons.IH [OF p tl this] show ?case .
qed

lemma dist_inv_shortest:
  assumes inv: "dist_inv G s W g h" and v: "v < length G" "v \<notin> set h"
  shows "shortest G s g v"
proof -
  from inv have b8: "\<And>v. v < length G \<Longrightarrow> v \<notin> set h \<Longrightarrow> distance (g ! v) \<noteq> UINT_MAX"
    and b6: "\<And>v. v < length G \<Longrightarrow> distance (g ! v) \<noteq> UINT_MAX \<Longrightarrow>
        \<exists>es. path G s es v \<and> weight es = uint (distance (g ! v))"
    unfolding dist_inv_def by blast+
  from b8 [OF v] b6 [OF v(1)] dist_inv_optimal [OF inv v] show ?thesis
    unfolding shortest_def by blast
qed

lemma dist_inv_break:
  assumes inv: "dist_inv G s W g h" and ex: "heap_extract_min g h = Some (m, g1, h1)"
    and inf: "node_get_distance g1 m = UINT_MAX" and v: "v < length G"
  shows "shortest G s g1 v"
proof -
  from inv have ti: "tree_inv G s g h" and o: "heap_ord g h" unfolding dist_inv_def by blast+
  note te = tree_inv_extract [OF ti ex]
  from ti have sg: "same_graph G g" and s: "s < length G" "distance (g ! s) = 0"
    by (simp_all add: tree_inv_def)
  from sg have lg: "length g = length G" by (simp add: same_graph_def)
  have d: "distance (g1 ! r) = distance (g ! r)" if "r < length G" for r
    using core_of_fields(1) [OF te(6), of r] that lg by simp
  from inf d [OF te(2)] have im: "distance (g ! m) = UINT_MAX" by (simp add: node_get_distance_def)
  have ih: "distance (g ! x) = UINT_MAX" if "x \<in> set h" for x
    using heap_ord_extract(2) [OF o ex that] im le_UINT_MAX [of "distance (g ! x)"] by simp
  from te(4) have ne: "h \<noteq> []" by auto
  have "shortest G s g v"
  proof (cases "v \<in> set h")
    case False
    from dist_inv_shortest [OF inv v False] show ?thesis .
  next
    case True
    have sh: "s \<notin> set h"
    proof
      assume "s \<in> set h"
      from ih [OF this] s(2) UINT_MAX_not_0 show False by simp
    qed
    have "\<not> path G s es v" for es
    proof
      assume "path G s es v"
      from dist_inv_closed [OF inv ne ih this s(1) sh] True show False by simp
    qed
    with ih [OF True] show ?thesis by (simp add: shortest_def)
  qed
  with d [OF v] show ?thesis by (simp add: shortest_def)
qed

lemma dijkstra_loop_bounded:
  assumes inv: "dist_inv G s W g h" and dest: "dest < length G"
  shows "\<exists>g' h'. dijkstra_loop g h dest = Some (Ok (g', h')) \<and> shortest G s g' dest"
proof -
  have ext: "dist_step G s W m g1 (node_get_edges g1 m) g1 h1"
    if "dist_inv G s W g h" "heap_extract_min g h = Some (m, g1, h1)"
      "node_get_distance g1 m \<noteq> UINT_MAX" for g h m g1 h1
    using that by (rule dist_inv_extract)
  have rel: "dist_step G s W m g0 es g1 h1"
    if "dist_step G s W m g0 (e # es) g h" "relax g h m (node_get_distance g0 m) e = Ok (g1, h1)"
    for m g0 e es g h g1 h1
    using that by (rule dist_step_relax)
  have ndf: "relax g h m (node_get_distance g0 m) e \<noteq> Undefined"
    if "dist_step G s W m g0 (e # es) g h" for m g0 e es g h
    using that by (rule dist_step_defined)
  have fin: "dist_inv G s W g h" if "dist_step G s W m g0 [] g h" for m g0 g h
    using that by (rule dist_step_done)
  have "\<exists>g' h'. dijkstra_loop g h dest = Some (Ok (g', h'))"
  proof (rule dijkstra_loop_total [where I = "dist_inv G s W" and J = "dist_step G s W", OF inv])
    show "dist_step G s W m g1 (node_get_edges g1 m) g1 h1"
      if "dist_inv G s W g h" "heap_extract_min g h = Some (m, g1, h1)"
        "node_get_distance g1 m \<noteq> UINT_MAX" for g h m g1 h1
      using that by (rule ext)
    show "dist_step G s W m g0 es g1 h1"
      if "dist_step G s W m g0 (e # es) g h" "relax g h m (node_get_distance g0 m) e = Ok (g1, h1)"
      for m g0 e es g h g1 h1
      using that by (rule rel)
    show "relax g h m (node_get_distance g0 m) e \<noteq> Undefined"
      if "dist_step G s W m g0 (e # es) g h" for m g0 e es g h
      using that by (rule ndf)
    show "dist_inv G s W g h" if "dist_step G s W m g0 [] g h" for m g0 g h
      using that by (rule fin)
  qed
  then obtain g' h' where ret: "dijkstra_loop g h dest = Some (Ok (g', h'))" by blast
  have "shortest G s g' dest"
  proof (rule dijkstra_loop_rule [where I = "dist_inv G s W" and J = "dist_step G s W"
        and R = "\<lambda>g h. shortest G s g dest", OF ret inv])
    show "shortest G s g dest" if "dist_inv G s W g []" for g
      using dist_inv_shortest [OF that dest] by simp
    show "shortest G s g1 dest"
      if "dist_inv G s W g h" "heap_extract_min g h = Some (m, g1, h1)"
        "node_get_distance g1 m = UINT_MAX" for g h m g1 h1
      using that dest by (rule dist_inv_break)
    show "dist_step G s W m g1 (node_get_edges g1 m) g1 h1"
      if "dist_inv G s W g h" "heap_extract_min g h = Some (m, g1, h1)"
        "node_get_distance g1 m \<noteq> UINT_MAX" for g h m g1 h1
      using that by (rule ext)
    show "dist_step G s W m g0 es g1 h1"
      if "dist_step G s W m g0 (e # es) g h" "relax g h m (node_get_distance g0 m) e = Ok (g1, h1)"
      for m g0 e es g h g1 h1
      using that by (rule rel)
    show "dist_inv G s W g h" if "dist_step G s W m g0 [] g h" for m g0 g h
      using that by (rule fin)
    show "shortest G s g dest" if J: "dist_step G s W dest g0 [] g h" for g0 g h
    proof -
      from J have "tree_step G s dest g0 [] g h" by (simp add: dist_step_def)
      then have "dest \<notin> set h" by (simp add: tree_step_def)
      from dist_inv_shortest [OF fin [OF J] dest this] show ?thesis .
    qed
  qed
  with ret show ?thesis by blast
qed

lemma dijkstra_bounded:
  assumes wf: "wf_graph G" and f: "fresh G" and bw: "bounded_weights G W"
    and gs: "graph_get_node G sid = Some s" and dest: "dest < length G"
  shows "\<exists>g' h'. dijkstra G sid dest = Some (Ok (g', h')) \<and> shortest G s g' dest"
proof -
  from dijkstra_start [OF f gs, of dest]
  obtain g1 h1 where eq: "dijkstra G sid dest = dijkstra_loop g1 h1 dest" and ii: "idx_inv g1 h1"
    and st: "set h1 = {..<length G}" and lh: "length h1 = length G" and sg: "same_graph G g1"
    and o: "heap_ord g1 h1"
    and ds: "\<forall>r < length G. distance (g1 ! r) = (if r = s then 0 else UINT_MAX) \<and> previous (g1 ! r) = None"
    by (elim exE conjE)
  from graph_get_node_Some(1) [OF gs] have s: "s < length G" .
  have "dist_inv G s W g1 h1" using wf s ii sg ds bw o st lh by (rule dist_inv_start)
  from dijkstra_loop_bounded [OF this dest] show ?thesis unfolding eq .
qed

lemma tree_inv_dijkstra:
  assumes wf: "wf_graph G" and f: "fresh G" and gs: "graph_get_node G sid = Some s"
    and r: "dijkstra G sid dest = Some (Ok (g', h'))"
  shows "tree_inv G s g' h'"
proof -
  from dijkstra_start [OF f gs, of dest]
  obtain g1 h1 where eq: "dijkstra G sid dest = dijkstra_loop g1 h1 dest" and ii: "idx_inv g1 h1"
    and sg: "same_graph G g1"
    and ds: "\<forall>r < length G. distance (g1 ! r) = (if r = s then 0 else UINT_MAX) \<and> previous (g1 ! r) = None"
    by (elim exE conjE)
  from graph_get_node_Some(1) [OF gs] have s: "s < length G" .
  have "tree_inv G s g1 h1" using wf s ii sg ds by (rule tree_inv_start)
  with r [unfolded eq] show ?thesis by (rule tree_inv_loop)
qed





subsection \<open>Runs of the search\<close>



lemma shortest_cong: "distance (g' ! v) = distance (g ! v) \<Longrightarrow> shortest G s g' v = shortest G s g v"
  by (simp add: shortest_def)







section \<open>The claims\<close>

text \<open>
  C1. For the graph with nodes 1, 2, 3 and edges (1,2) of weight 5, (2,3) of weight 2 and
  (1,3) of weight 10, the search from 1 to 3 reports the path 1, 2, 3 with the labels 5 and
  2 (distance 7), not the direct edge of weight 10. The loaders build the graph from the two
  files, the search leaves distance 7 and the predecessor chain 3, 2, 1, and the program
  prints the two edges, the one next to the target first.
\<close>

theorem scenario_shortest_path:
  "loadNodes [] \<lparr>content = scenario_nodes, eof = False\<rparr> = Ok (True, map new_node [1, 2, 3]) \<and>
   loadEdges (map new_node [1, 2, 3]) \<lparr>content = scenario_edges, eof = False\<rparr> = Ok (True, scenario_graph) \<and>
   (case dijkstra scenario_graph 1 2 of
      Some (Ok (g', h')) \<Rightarrow>
        node_get_distance g' 2 = 7 \<and> node_get_previous g' 2 = Some 1 \<and>
        node_get_distance g' 1 = 5 \<and> node_get_previous g' 1 = Some 0 \<and>
        node_get_distance g' 0 = 0 \<and> node_get_previous g' 0 = None
    | _ \<Rightarrow> False) \<and>
   app scenario_env ''nodes.csv'' ''edges.csv'' ''1'' ''3'' None =
     Some (Exit \<lparr>exit_code = 0, stderr = [],
                 stdout = ''digraph {'' @ [nl] @
                          [tab] @ ''2 -> 3 [label=2];'' @ [nl] @
                          [tab] @ ''1 -> 2 [label=5];'' @ [nl] @
                          ''}'' @ [nl],
                 created_file = None\<rparr>)"
  by code_simp






text \<open>
  C9. The weight is a signed 32-bit integer, the addition of the relaxation is unsigned: the
  distance stored for a relaxed edge is the finalized distance plus the weight modulo \<open>2^32\<close>,
  and a negative weight is added as the large unsigned value \<open>2^32 + weight\<close>.
\<close>

theorem candidate_unsigned_wraparound:
  assumes "destination e < length g" and "heap_index (g ! destination e) \<noteq> None"
    and "d + mindelay e < node_get_distance g (destination e)"
  shows "\<exists>g' h'. relax g h node d e = Ok (g', h') \<and>
           uint (node_get_distance g' (destination e)) = (uint d + sint (mindelay e)) mod 2 ^ 32 \<and>
           (sint (mindelay e) < 0 \<longrightarrow>
              uint (mindelay e) = 2 ^ 32 + sint (mindelay e) \<and> 2 ^ 31 \<le> uint (mindelay e))"
proof -
  from relax_effect [OF assms(1,2), of h node d] assms(3)
  obtain g' h' where r: "relax g h node d e = Ok (g', h')"
    and v: "node_get_distance g' (destination e) = d + mindelay e"
    by auto
  have n: "sint (mindelay e) < 0 \<longrightarrow>
          uint (mindelay e) = 2 ^ 32 + sint (mindelay e) \<and> 2 ^ 31 \<le> uint (mindelay e)"
    using sint_neg_uint [of "mindelay e"] sint_ge [of "mindelay e"] by auto
  have u: "uint (node_get_distance g' (destination e)) = (uint d + sint (mindelay e)) mod 2 ^ 32"
    unfolding v by (rule uint_add_sint)
  show ?thesis
    by (intro exI [of _ g'] exI [of _ h'] conjI r u n)
qed

theorem candidate_unsigned_wraparound_witness:
  "destination \<lparr>destination = 1, mindelay = - 3\<rparr> < length scenario_built \<and>
   heap_index (scenario_built ! destination \<lparr>destination = 1, mindelay = - 3\<rparr>) \<noteq> None \<and>
   (1 :: 32 word) + mindelay \<lparr>destination = 1, mindelay = - 3\<rparr> < node_get_distance scenario_built 1 \<and>
   sint (mindelay \<lparr>destination = 1, mindelay = - 3\<rparr>) < 0 \<and>
   (\<exists>g' h'. relax scenario_built [0, 1, 2] 0 1 \<lparr>destination = 1, mindelay = - 3\<rparr> = Ok (g', h') \<and>
      uint (node_get_distance g' 1) = 4294967294 \<and>
      uint (mindelay \<lparr>destination = 1, mindelay = - 3\<rparr>) = 4294967293)"
proof -
  have a: "destination \<lparr>destination = 1, mindelay = - 3 :: 32 word\<rparr> < length scenario_built"
    by code_simp
  have b: "heap_index (scenario_built ! destination \<lparr>destination = 1, mindelay = - 3 :: 32 word\<rparr>) \<noteq> None"
    by code_simp
  have c: "(1 :: 32 word) + mindelay \<lparr>destination = 1, mindelay = - 3\<rparr>
             < node_get_distance scenario_built (destination \<lparr>destination = 1, mindelay = - 3 :: 32 word\<rparr>)"
    by code_simp
  have d: "sint (mindelay \<lparr>destination = 1, mindelay = - 3 :: 32 word\<rparr>) = - 3"
    by simp
  from candidate_unsigned_wraparound [OF a b c, of "[0, 1, 2]" 0] a b c d show ?thesis
    by auto
qed

text \<open>
  C4. The output of the renderer is the opening line \<^verbatim>\<open>digraph {\<close>, one line per
  traversed predecessor link and the closing line \<^verbatim>\<open>}\<close>. The lines follow the chain of
  \<open>previous\<close> links from the target: the first line is the link into the target, the last
  one the link out of the end of the chain; the label of a line is the difference of the
  distances of its two nodes. Every output the renderer returns has this form. When the
  source id is the target's id, there is no edge line between the two markers.
\<close>

theorem rendered_path_format:
  "(source_id = node_get_id g dest \<longrightarrow>
      printShortestPath source_id g dest = Some (''digraph {'' @ [nl] @ ''}'' @ [nl])) \<and>
   (source_id \<noteq> node_get_id g dest \<longrightarrow>
      (\<forall>out. printShortestPath source_id g dest = Some out \<longrightarrow>
         (\<exists>ns. is_chain g (dest # ns))) \<and>
      (\<forall>ns. is_chain g (dest # ns) \<longrightarrow>
         printShortestPath source_id g dest =
           Some (''digraph {'' @ [nl] @
                 concat (map (\<lambda>(p, n).
                     [tab] @ dec (unat (node_get_id g p)) @ '' -> '' @ dec (unat (node_get_id g n)) @
                     '' [label='' @ dec (unat (node_get_distance g n - node_get_distance g p)) @
                     ''];'' @ [nl]) (zip ns (dest # ns))) @
                 ''}'' @ [nl])))"
proof (intro conjI impI allI)
  assume "source_id = node_get_id g dest"
  then show "printShortestPath source_id g dest = Some (''digraph {'' @ [nl] @ ''}'' @ [nl])"
    by (simp add: printShortestPath_def)
next
  fix out
  assume ne: "source_id \<noteq> node_get_id g dest" and r: "printShortestPath source_id g dest = Some out"
  from ne r obtain y where "print_loop g dest (node_get_previous g dest) (''digraph {'' @ [nl]) = Some y"
    by (auto simp: printShortestPath_def split: option.splits)
  from print_loop_returns_chain [OF this] show "\<exists>ns. is_chain g (dest # ns)" by simp
next
  fix ns
  assume ne: "source_id \<noteq> node_get_id g dest" and c: "is_chain g (dest # ns)"
  have "(\<lambda>(p, n). edge_line g p n) = (\<lambda>(p, n).
                     [tab] @ dec (unat (node_get_id g p)) @ '' -> '' @ dec (unat (node_get_id g n)) @
                     '' [label='' @ dec (unat (node_get_distance g n - node_get_distance g p)) @
                     ''];'' @ [nl])"
    by (simp add: edge_line_def fun_eq_iff)
  with print_loop_chain [OF c, of "''digraph {'' @ [nl]"] ne
  show "printShortestPath source_id g dest =
           Some (''digraph {'' @ [nl] @
                 concat (map (\<lambda>(p, n).
                     [tab] @ dec (unat (node_get_id g p)) @ '' -> '' @ dec (unat (node_get_id g n)) @
                     '' [label='' @ dec (unat (node_get_distance g n - node_get_distance g p)) @
                     ''];'' @ [nl]) (zip ns (dest # ns))) @
                 ''}'' @ [nl])"
    by (simp add: printShortestPath_def)
qed

theorem rendered_path_format_witness:
  "dijkstra scenario_graph 1 2 = Some (Ok (scenario_done, [])) \<and>
   1 \<noteq> node_get_id scenario_done 2 \<and> is_chain scenario_done [2, 1, 0] \<and>
   printShortestPath 1 scenario_done 2 =
     Some (''digraph {'' @ [nl] @
           [tab] @ ''2 -> 3 [label=2];'' @ [nl] @
           [tab] @ ''1 -> 2 [label=5];'' @ [nl] @
           ''}'' @ [nl]) \<and>
   3 = node_get_id scenario_done 2 \<and>
   printShortestPath 3 scenario_done 2 = Some (''digraph {'' @ [nl] @ ''}'' @ [nl])"
proof -
  have d: "dijkstra scenario_graph 1 2 = Some (Ok (scenario_done, []))" by code_simp
  have a: "1 \<noteq> node_get_id scenario_done 2" by code_simp
  have b: "is_chain scenario_done [2, 1, 0]" by code_simp
  have c: "3 = node_get_id scenario_done 2" by code_simp
  have e: "concat (map (\<lambda>(p, n).
                     [tab] @ dec (unat (node_get_id scenario_done p)) @ '' -> '' @
                     dec (unat (node_get_id scenario_done n)) @
                     '' [label='' @ dec (unat (node_get_distance scenario_done n - node_get_distance scenario_done p)) @
                     ''];'' @ [nl]) (zip [1, 0] [2, 1, 0])) =
           [tab] @ ''2 -> 3 [label=2];'' @ [nl] @ [tab] @ ''1 -> 2 [label=5];'' @ [nl]"
    by code_simp
  from rendered_path_format [of 1 scenario_done 2] a b
  have "printShortestPath 1 scenario_done 2 =
     Some (''digraph {'' @ [nl] @
           concat (map (\<lambda>(p, n).
                     [tab] @ dec (unat (node_get_id scenario_done p)) @ '' -> '' @
                     dec (unat (node_get_id scenario_done n)) @
                     '' [label='' @ dec (unat (node_get_distance scenario_done n - node_get_distance scenario_done p)) @
                     ''];'' @ [nl]) (zip [1, 0] [2, 1, 0])) @
           ''}'' @ [nl])"
    by blast
  then have f: "printShortestPath 1 scenario_done 2 =
     Some (''digraph {'' @ [nl] @
           [tab] @ ''2 -> 3 [label=2];'' @ [nl] @
           [tab] @ ''1 -> 2 [label=5];'' @ [nl] @
           ''}'' @ [nl])"
    unfolding e by simp
  from rendered_path_format [of 3 scenario_done 2] c
  have g: "printShortestPath 3 scenario_done 2 = Some (''digraph {'' @ [nl] @ ''}'' @ [nl])"
    by blast
  from d a b c f g show ?thesis by blast
qed




text \<open>
  C10, as the claim states it: a source or destination argument that is not a number behaves
  as the id 0. It fails: with the single node 7 in the graph, the source argument \<^verbatim>\<open>7x\<close>
  finds node 7 and the program prints the empty path, where \<^verbatim>\<open>0\<close> is an invalid source.
\<close>

theorem non_numeric_argument_counterexample:
  "\<not> is_number ''7x'' \<and>
   app seven_env ''nodes.csv'' ''edges.csv'' ''7x'' ''7'' None =
     Some (Exit \<lparr>exit_code = 0, stderr = [], stdout = ''digraph {'' @ [nl] @ ''}'' @ [nl], created_file = None\<rparr>) \<and>
   app seven_env ''nodes.csv'' ''edges.csv'' ''0'' ''7'' None = Some (fail INVALID_SOURCE_NODE_ID) \<and>
   app seven_env ''nodes.csv'' ''edges.csv'' ''7x'' ''7'' None \<noteq>
   app seven_env ''nodes.csv'' ''edges.csv'' ''0'' ''7'' None"
  by code_simp

text \<open>
  C10, amended. The source and destination arguments are read by \<^verbatim>\<open>atoi\<close>. An argument
  without leading decimal digits (after white space and an optional sign) behaves exactly as
  \<^verbatim>\<open>0\<close>: the program looks up node 0, and reports an invalid destination, or an invalid
  source once the destination has been found, exactly when node 0 is not in the graph. An
  argument that goes on after its leading digits behaves as the digits alone.
\<close>

theorem argument_without_digits_is_zero:
  "(no_leading_digit sourceNode \<longrightarrow>
      app e nf ef sourceNode destNode out = app e nf ef ''0'' destNode out) \<and>
   (no_leading_digit destNode \<longrightarrow>
      app e nf ef sourceNode destNode out = app e nf ef sourceNode ''0'' out) \<and>
   (no_leading_digit destNode \<longrightarrow>
      (search_and_print e g sourceNode destNode out = Some (fail INVALID_DEST_NODE_ID)) =
      (graph_get_node g 0 = None)) \<and>
   (no_leading_digit sourceNode \<longrightarrow>
      (\<forall>k. atoi (Some destNode) = Ok k \<longrightarrow> graph_get_node g k \<noteq> None \<longrightarrow>
         (search_and_print e g sourceNode destNode out = Some (fail INVALID_SOURCE_NODE_ID)) =
         (graph_get_node g 0 = None))) \<and>
   (x = [] \<or> \<not> isdigit (hd x) \<longrightarrow>
      app e nf ef (dec n @ x) destNode out = app e nf ef (dec n) destNode out \<and>
      app e nf ef sourceNode (dec n @ x) out = app e nf ef sourceNode (dec n) out)"
proof (intro conjI impI allI)
  have z: "atoi (Some ''0'') = Ok 0"
    by (simp add: atoi_def atoi_value_def digits_value_def isspace_def isdigit_def)
  {
    assume "no_leading_digit sourceNode"
    then have "atoi (Some sourceNode) = atoi (Some ''0'')"
      by (simp add: atoi_no_leading_digit z)
    then show "app e nf ef sourceNode destNode out = app e nf ef ''0'' destNode out"
      by (rule app_cong) simp
  }
  {
    assume "no_leading_digit destNode"
    then have "atoi (Some destNode) = atoi (Some ''0'')"
      by (simp add: atoi_no_leading_digit z)
    then show "app e nf ef sourceNode destNode out = app e nf ef sourceNode ''0'' out"
      by (intro app_cong) simp_all
  }
  {
    assume "no_leading_digit destNode"
    then have "atoi (Some destNode) = Ok 0" by (rule atoi_no_leading_digit)
    then show "(search_and_print e g sourceNode destNode out = Some (fail INVALID_DEST_NODE_ID)) =
      (graph_get_node g 0 = None)"
      by (rule invalid_dest_iff)
  }
  {
    fix k
    assume "no_leading_digit sourceNode" and d: "atoi (Some destNode) = Ok k" "graph_get_node g k \<noteq> None"
    then have "atoi (Some sourceNode) = Ok 0" by (simp add: atoi_no_leading_digit)
    with d show "(search_and_print e g sourceNode destNode out = Some (fail INVALID_SOURCE_NODE_ID)) =
         (graph_get_node g 0 = None)"
      by (rule invalid_source_iff)
  }
  {
    assume x: "x = [] \<or> \<not> isdigit (hd x)"
    from atoi_dec_prefix [OF x, of n]
    show "app e nf ef (dec n @ x) destNode out = app e nf ef (dec n) destNode out"
      by (rule app_cong) simp
    from atoi_dec_prefix [OF x, of n]
    show "app e nf ef sourceNode (dec n @ x) out = app e nf ef sourceNode (dec n) out"
      by (intro app_cong) simp_all
  }
qed

theorem argument_without_digits_is_zero_witness:
  "no_leading_digit ''abc'' \<and> no_leading_digit ''-x'' \<and>
   app seven_env ''nodes.csv'' ''edges.csv'' ''abc'' ''7'' None = Some (fail INVALID_SOURCE_NODE_ID) \<and>
   app seven_env ''nodes.csv'' ''edges.csv'' ''7'' ''-x'' None = Some (fail INVALID_DEST_NODE_ID) \<and>
   atoi (Some ''7'') = Ok 7 \<and> graph_get_node [new_node 7] 7 \<noteq> None \<and> graph_get_node [new_node 7] 0 = None \<and>
   search_and_print seven_env [new_node 7] ''abc'' ''7'' None = Some (fail INVALID_SOURCE_NODE_ID) \<and>
   search_and_print seven_env [new_node 7] ''7'' ''-x'' None = Some (fail INVALID_DEST_NODE_ID) \<and>
   dec 7 @ ''x'' = ''7x'' \<and>
   app seven_env ''nodes.csv'' ''edges.csv'' ''7x'' ''7'' None =
     Some (Exit \<lparr>exit_code = 0, stderr = [], stdout = ''digraph {'' @ [nl] @ ''}'' @ [nl], created_file = None\<rparr>)"
proof -
  have a: "no_leading_digit ''abc''" and b: "no_leading_digit ''-x''" by code_simp+
  have c: "app seven_env ''nodes.csv'' ''edges.csv'' ''0'' ''7'' None = Some (fail INVALID_SOURCE_NODE_ID)"
    by code_simp
  have d: "app seven_env ''nodes.csv'' ''edges.csv'' ''7'' ''0'' None = Some (fail INVALID_DEST_NODE_ID)"
    by code_simp
  have e: "atoi (Some ''7'') = Ok 7" "graph_get_node [new_node 7] 7 \<noteq> None"
    "graph_get_node [new_node 7] 0 = None" by code_simp+
  have f: "dec 7 @ ''x'' = ''7x''" "dec 7 = ''7''" "''x'' = [] \<or> \<not> isdigit (hd ''x'')" by code_simp+
  have g: "app seven_env ''nodes.csv'' ''edges.csv'' ''7'' ''7'' None =
     Some (Exit \<lparr>exit_code = 0, stderr = [], stdout = ''digraph {'' @ [nl] @ ''}'' @ [nl], created_file = None\<rparr>)"
    by code_simp
  note t1 = argument_without_digits_is_zero [of "''abc''" seven_env "''nodes.csv''" "''edges.csv''" "''7''" None "[new_node 7]" "''x''" 7]
  note t2 = argument_without_digits_is_zero [of "''7''" seven_env "''nodes.csv''" "''edges.csv''" "''-x''" None "[new_node 7]" "''x''" 7]
  from t1 a c have h1: "app seven_env ''nodes.csv'' ''edges.csv'' ''abc'' ''7'' None = Some (fail INVALID_SOURCE_NODE_ID)"
    by simp
  from t2 b d have h2: "app seven_env ''nodes.csv'' ''edges.csv'' ''7'' ''-x'' None = Some (fail INVALID_DEST_NODE_ID)"
    by simp
  from t1 a e have h3: "search_and_print seven_env [new_node 7] ''abc'' ''7'' None = Some (fail INVALID_SOURCE_NODE_ID)"
    by simp
  from t2 b e have h4: "search_and_print seven_env [new_node 7] ''7'' ''-x'' None = Some (fail INVALID_DEST_NODE_ID)"
    by simp
  from t1 f g have h5: "app seven_env ''nodes.csv'' ''edges.csv'' ''7x'' ''7'' None =
     Some (Exit \<lparr>exit_code = 0, stderr = [], stdout = ''digraph {'' @ [nl] @ ''}'' @ [nl], created_file = None\<rparr>)"
    by simp
  from a b h1 h2 e h3 h4 f(1) h5 show ?thesis by blast
qed




end
